theory Spec2Isabelle
  imports Main "HOL-Library.Word"
begin

section \<open>JavaScript strings\<close>

text \<open>
  A JavaScript string is a sequence of 16-bit UTF-16 code units. String literals of the
  source are written \<open>js ''...''\<close>.
\<close>

type_synonym cu = "16 word"
type_synonym jsstring = "cu list"

definition js :: "string \<Rightarrow> jsstring" where
  "js = map of_char"

definition lt :: cu where "lt = 0x3C"
definition gt :: cu where "gt = 0x3E"
definition sp :: cu where "sp = 0x20"

text \<open>
  The characters matched by \<open>\s\<close> and removed by \<open>trim()\<close>: ECMAScript's WhiteSpace and
  LineTerminator code points (TAB, LF, VT, FF, CR, SP, NBSP, the Unicode space separators,
  LS, PS and the byte order mark).
\<close>

definition isWhiteSpace :: "cu \<Rightarrow> bool" where
  "isWhiteSpace c \<longleftrightarrow>
     c \<in> set [0x9, 0xA, 0xB, 0xC, 0xD, 0x20, 0xA0, 0x1680,
               0x2028, 0x2029, 0x202F, 0x205F, 0x3000, 0xFEFF]
     \<or> (0x2000 \<le> c \<and> c \<le> 0x200A)"

text \<open>
  Case folding of the \<open>i\<close> flag. ECMAScript's Canonicalize never maps a code unit above
  127 to one below 128, so against the ASCII letters of the source's patterns (and against
  what group 1 captured, which matched \<open>td|th\<close>) it agrees with upper-casing \<open>a\<close>..\<open>z\<close>.
\<close>

definition canonicalize :: "cu \<Rightarrow> cu" where
  "canonicalize c = (if 0x61 \<le> c \<and> c \<le> 0x7A then c - 0x20 else c)"

text \<open>
  \<open>toLowerCase\<close> on the ASCII letters. No other code unit lower-cases to one of the
  letters of the marker \<open>papel\<close>, so containment of the marker is not affected.
\<close>

definition toLowerCase :: "jsstring \<Rightarrow> jsstring" where
  "toLowerCase = map (\<lambda>c. if 0x41 \<le> c \<and> c \<le> 0x5A then c + 0x20 else c)"

fun includes_js :: "jsstring \<Rightarrow> jsstring \<Rightarrow> bool" where
  "includes_js [] pat = (pat = [])"
| "includes_js (x # xs) pat = (take (length pat) (x # xs) = pat \<or> includes_js xs pat)"

definition trim :: "jsstring \<Rightarrow> jsstring" where
  "trim s = rev (dropWhile isWhiteSpace (rev (dropWhile isWhiteSpace s)))"

section \<open>Regular expressions\<close>

text \<open>
  The fragment of ECMAScript regular expressions that the source uses: single characters
  and character classes, greedy and lazy repetition of a class, capture groups, a
  disjunction and a backreference. A pattern is the list of its terms in order; the
  parentheses of group \<open>n\<close> are the terms \<open>Opn n\<close> and \<open>Cls n\<close>.
\<close>

datatype cclass = Lit cu | NotLit cu | AnyCU | WS

fun cmatch :: "bool \<Rightarrow> cclass \<Rightarrow> cu \<Rightarrow> bool" where
  "cmatch ic (Lit c) x = (if ic then canonicalize x = canonicalize c else x = c)"
| "cmatch ic (NotLit c) x = (\<not> (if ic then canonicalize x = canonicalize c else x = c))"
| "cmatch ic AnyCU x = True"
| "cmatch ic WS x = isWhiteSpace x"

datatype node =
    Chr cclass
  | Star bool cclass
  | Plus cclass
  | Opn nat
  | Cls nat
  | Alt "node list" "node list"
  | Backref nat

fun nsize :: "node \<Rightarrow> nat" where
  "nsize (Alt a b) = Suc (sum_list (map nsize a) + sum_list (map nsize b))"
| "nsize _ = 1"

definition psize :: "node list \<Rightarrow> nat" where
  "psize p = sum_list (map nsize p)"

record mstate =
  opens :: "nat \<Rightarrow> jsstring"
  caps :: "nat \<Rightarrow> jsstring option"

definition st0 :: mstate where
  "st0 = \<lparr>opens = (\<lambda>_. []), caps = (\<lambda>_. None)\<rparr>"

text \<open>
  The backtracking matcher. \<open>mt ic p s st\<close> matches pattern \<open>p\<close> at the start of \<open>s\<close>
  and returns the captures and the input left after the match. \<open>Star True\<close> is the greedy
  \<open>*\<close> (longest first), \<open>Star False\<close> the lazy \<open>*?\<close> (shortest first); a disjunction
  tries its left alternative with everything that follows before its right one.
\<close>

function (sequential) mt ::
  "bool \<Rightarrow> node list \<Rightarrow> jsstring \<Rightarrow> mstate \<Rightarrow> (mstate \<times> jsstring) option" where
  "mt ic [] s st = Some (st, s)"
| "mt ic (Chr cc # k) [] st = None"
| "mt ic (Chr cc # k) (x # xs) st = (if cmatch ic cc x then mt ic k xs st else None)"
| "mt ic (Star True cc # k) [] st = mt ic k [] st"
| "mt ic (Star True cc # k) (x # xs) st =
     (if cmatch ic cc x
      then (case mt ic (Star True cc # k) xs st of
              Some r \<Rightarrow> Some r
            | None \<Rightarrow> mt ic k (x # xs) st)
      else mt ic k (x # xs) st)"
| "mt ic (Star False cc # k) [] st = mt ic k [] st"
| "mt ic (Star False cc # k) (x # xs) st =
     (case mt ic k (x # xs) st of
        Some r \<Rightarrow> Some r
      | None \<Rightarrow> if cmatch ic cc x then mt ic (Star False cc # k) xs st else None)"
| "mt ic (Plus cc # k) [] st = None"
| "mt ic (Plus cc # k) (x # xs) st =
     (if cmatch ic cc x then mt ic (Star True cc # k) xs st else None)"
| "mt ic (Opn n # k) s st = mt ic k s (st\<lparr>opens := (opens st)(n := s)\<rparr>)"
| "mt ic (Cls n # k) s st =
     mt ic k s
       (st\<lparr>caps := (caps st)(n \<mapsto> take (length (opens st n) - length s) (opens st n))\<rparr>)"
| "mt ic (Alt a b # k) s st =
     (case mt ic (a @ k) s st of Some r \<Rightarrow> Some r | None \<Rightarrow> mt ic (b @ k) s st)"
| "mt ic (Backref n # k) s st =
     (case caps st n of
        None \<Rightarrow> mt ic k s st
      | Some v \<Rightarrow>
          if length v \<le> length s \<and>
             (if ic then map canonicalize (take (length v) s) = map canonicalize v
              else take (length v) s = v)
          then mt ic k (drop (length v) s) st
          else None)"
  by pat_completeness auto
termination
  by (relation "inv_image (less_than <*lex*> less_than) (\<lambda>(ic, p, s, st). (length s, psize p))")
     (auto simp: psize_def)

text \<open>The leftmost match: try every start position from the current one on.\<close>

fun scan :: "bool \<Rightarrow> node list \<Rightarrow> jsstring \<Rightarrow> nat \<Rightarrow> (nat \<times> mstate \<times> jsstring) option" where
  "scan ic p [] i =
     (case mt ic p [] st0 of Some (st, rest) \<Rightarrow> Some (i, st, rest) | None \<Rightarrow> None)"
| "scan ic p (x # xs) i =
     (case mt ic p (x # xs) st0 of
        Some (st, rest) \<Rightarrow> Some (i, st, rest)
      | None \<Rightarrow> scan ic p xs (Suc i))"

record regex =
  source :: "node list"
  ignoreCase :: bool

text \<open>
  A match as \<open>exec\<close> returns it: \<open>index\<close>, the matched text (element 0 of the array) and
  the captured groups (elements 1, 2, ...; \<open>None\<close> is \<open>undefined\<close>).
\<close>

record match =
  index :: nat
  text0 :: jsstring
  groups :: "nat \<Rightarrow> jsstring option"

text \<open>
  \<open>RegExp.prototype.exec\<close> of a regex with the \<open>g\<close> flag (all four of the source have
  it). The regex object's \<open>lastIndex\<close> is passed in and returned: the search starts there,
  a match moves it to the end of the match, a failure resets it to 0 and returns \<open>null\<close>.
\<close>

definition exec :: "regex \<Rightarrow> jsstring \<Rightarrow> nat \<Rightarrow> match option \<times> nat" where
  "exec r s lastIndex =
     (if lastIndex > length s then (None, 0)
      else case scan (ignoreCase r) (source r) (drop lastIndex s) lastIndex of
             None \<Rightarrow> (None, 0)
           | Some (i, st, rest) \<Rightarrow>
               let e = length s - length rest
               in (Some \<lparr>index = i, text0 = take (e - i) (drop i s), groups = caps st\<rparr>, e))"

subsection \<open>What a match consumes\<close>

lemma mt_suffix:
  "mt ic p s st = Some (st', rest) \<Longrightarrow> \<exists>m. s = m @ rest"
proof (induction ic p s st arbitrary: st' rest rule: mt.induct)
  case (3 ic cc k x xs st)
  then show ?case by (fastforce split: if_splits)
next
  case (5 ic cc k x xs st)
  then show ?case by (fastforce split: if_splits option.splits)
next
  case (7 ic cc k x xs st)
  then show ?case by (fastforce split: if_splits option.splits)
next
  case (9 ic cc k x xs st)
  then show ?case by (fastforce split: if_splits)
next
  case (12 ic a b k s st)
  then show ?case by (fastforce split: option.splits)
next
  case (13 ic n k s st)
  show ?case
  proof (cases "caps st n")
    case None
    with 13 show ?thesis by simp
  next
    case (Some v)
    with 13 obtain m where "drop (length v) s = m @ rest"
      by (fastforce split: if_splits)
    then have "s = (take (length v) s @ m) @ rest"
      by (metis append_assoc append_take_drop_id)
    then show ?thesis by blast
  qed
qed auto

lemma mt_length_le:
  "mt ic p s st = Some (st', rest) \<Longrightarrow> length rest \<le> length s"
  using mt_suffix by fastforce

lemma mt_Chr_length_less:
  "mt ic (Chr cc # k) s st = Some (st', rest) \<Longrightarrow> length rest < length s"
  by (cases s) (auto split: if_splits dest: mt_length_le)

lemma mt_Plus_length_less:
  "mt ic (Plus cc # k) s st = Some (st', rest) \<Longrightarrow> length rest < length s"
  by (cases s) (auto split: if_splits dest: mt_length_le)

lemma scan_Some:
  "scan ic p s i = Some (j, st, rest) \<Longrightarrow>
     i \<le> j \<and> j - i \<le> length s \<and> mt ic p (drop (j - i) s) st0 = Some (st, rest)"
proof (induction s arbitrary: i)
  case Nil
  then show ?case by (auto split: option.splits)
next
  case (Cons x xs)
  show ?case
  proof (cases "mt ic p (x # xs) st0")
    case None
    with Cons.prems have "scan ic p xs (Suc i) = Some (j, st, rest)" by simp
    from Cons.IH [OF this] have a: "Suc i \<le> j" and b: "j - Suc i \<le> length xs"
      and c: "mt ic p (drop (j - Suc i) xs) st0 = Some (st, rest)" by auto
    from a have d: "j - i = Suc (j - Suc i)" by arith
    from a b c show ?thesis unfolding d by simp
  next
    case (Some r)
    with Cons.prems show ?thesis by (cases r) auto
  qed
qed

lemma exec_Some:
  assumes "exec r s i = (Some m, i')"
  shows "i \<le> index m" and "i' = index m + length (text0 m)" and "i' \<le> length s"
    and "text0 m = take (length (text0 m)) (drop (index m) s)"
    and "\<exists>st. mt (ignoreCase r) (source r) (drop (index m) s) st0 = Some (st, drop i' s)
           \<and> groups m = caps st"
proof -
  from assms have le: "i \<le> length s"
    by (auto simp: exec_def split: if_splits)
  from assms le obtain j st rest where
    sc: "scan (ignoreCase r) (source r) (drop i s) i = Some (j, st, rest)"
    and m: "m = \<lparr>index = j, text0 = take (length s - length rest - j) (drop j s), groups = caps st\<rparr>"
    and i': "i' = length s - length rest"
    by (auto simp: exec_def Let_def split: option.splits)
  from scan_Some [OF sc] have ij: "i \<le> j" and jl: "j - i \<le> length (drop i s)"
    and mt: "mt (ignoreCase r) (source r) (drop (j - i) (drop i s)) st0 = Some (st, rest)"
    by auto
  from ij have dj: "drop (j - i) (drop i s) = drop j s" by simp
  from mt dj obtain w where w: "drop j s = w @ rest"
    using mt_suffix by metis
  from jl le ij have jle: "j \<le> length s" by simp
  from w have lw: "length s - j = length w + length rest"
    by (metis length_append length_drop)
  from lw jle have rl: "length s - length rest - j = length w" by simp
  from w rl have tx: "text0 m = w" by (simp add: m)
  show "i \<le> index m" using ij m by simp
  show "i' = index m + length (text0 m)" using i' tx lw jle m by simp
  show "i' \<le> length s" using i' by simp
  show "text0 m = take (length (text0 m)) (drop (index m) s)" using tx w m by simp
  have "length s - length rest = j + length w"
    using lw jle by arith
  then have "drop i' s = drop (length w) (drop j s)"
    using i' by (simp add: add.commute)
  then have "drop i' s = rest" using w by simp
  then show "\<exists>st. mt (ignoreCase r) (source r) (drop (index m) s) st0 = Some (st, drop i' s)
           \<and> groups m = caps st"
    using mt dj m by auto
qed

lemma exec_advances:
  assumes "exec r s i = (Some m, i')" and "source r = Chr cc # k"
  shows "i < i'" and "text0 m \<noteq> []"
proof -
  from exec_Some [OF assms(1)] obtain st where
    a: "i \<le> index m" and b: "i' = index m + length (text0 m)" and c: "i' \<le> length s"
    and d: "mt (ignoreCase r) (source r) (drop (index m) s) st0 = Some (st, drop i' s)"
    by blast
  from d assms(2) have "length (drop i' s) < length (drop (index m) s)"
    using mt_Chr_length_less by metis
  with c have l: "index m < i'" by simp
  from l a show "i < i'" by arith
  from l b show "text0 m \<noteq> []" by auto
qed

subsection \<open>Global replacement\<close>

text \<open>
  \<open>String.prototype.replace\<close> with a global regex first collects every match, moving
  \<open>lastIndex\<close> one further after an empty match, and then rebuilds the string: the text
  between the matches is kept, every match becomes the replacement.
\<close>

function match_all :: "regex \<Rightarrow> jsstring \<Rightarrow> nat \<Rightarrow> match list" where
  "match_all r s lastIndex =
     (case exec r s lastIndex of
        (None, _) \<Rightarrow> []
      | (Some m, lastIndex') \<Rightarrow>
          m # match_all r s (if text0 m = [] then Suc lastIndex' else lastIndex'))"
  by pat_completeness auto
termination
proof (relation "measure (\<lambda>(r, s, i). Suc (length s) - i)")
  show "wf (measure (\<lambda>(r, s, i). Suc (length s) - i))" by simp
next
  fix r s lastIndex and x :: "match option" and y m
  assume "(x, y) = exec r s lastIndex" and "x = Some m"
  then have e: "exec r s lastIndex = (Some m, y)" by simp
  from exec_Some [OF e] have "lastIndex \<le> index m" and "y = index m + length (text0 m)"
    and "y \<le> length s" by auto
  then show "((r, s, if text0 m = [] then Suc y else y), r, s, lastIndex)
      \<in> measure (\<lambda>(r, s, i). Suc (length s) - i)"
    by (cases "text0 m") auto
qed

declare match_all.simps [simp del]

fun build :: "jsstring \<Rightarrow> jsstring \<Rightarrow> nat \<Rightarrow> match list \<Rightarrow> jsstring" where
  "build s rep nextSourcePosition [] = drop nextSourcePosition s"
| "build s rep nextSourcePosition (m # ms) =
     (if index m \<ge> nextSourcePosition
      then take (index m - nextSourcePosition) (drop nextSourcePosition s) @ rep @
           build s rep (index m + length (text0 m)) ms
      else build s rep nextSourcePosition ms)"

definition replace :: "regex \<Rightarrow> jsstring \<Rightarrow> jsstring \<Rightarrow> jsstring" where
  "replace r rep s = build s rep 0 (match_all r s 0)"

section \<open>The table parser\<close>

definition lits :: "jsstring \<Rightarrow> node list" where
  "lits s = map (\<lambda>c. Chr (Lit c)) s"

text \<open>\<^verbatim>\<open>/<tr[\s\S]*?<\/tr>/gi\<close>\<close>

definition trRe :: regex where
  "trRe = \<lparr>source = lits (js ''<tr'') @ [Star False AnyCU] @ lits (js ''</tr>''),
           ignoreCase = True\<rparr>"

text \<open>\<^verbatim>\<open>/<(td|th)[^>]*>([\s\S]*?)<\/\1>/gi\<close>\<close>

definition cellRe :: regex where
  "cellRe = \<lparr>source = lits (js ''<'') @ [Opn 1, Alt (lits (js ''td'')) (lits (js ''th'')), Cls 1,
               Star True (NotLit gt)] @ lits (js ''>'') @ [Opn 2, Star False AnyCU, Cls 2] @
               lits (js ''</'') @ [Backref 1] @ lits (js ''>''),
             ignoreCase = True\<rparr>"

text \<open>\<^verbatim>\<open>/<[^>]*>/g\<close>\<close>

definition tagRe :: regex where
  "tagRe = \<lparr>source = lits (js ''<'') @ [Star True (NotLit gt)] @ lits (js ''>''),
            ignoreCase = False\<rparr>"

text \<open>\<^verbatim>\<open>/\s+/g\<close>\<close>

definition wsRe :: regex where
  "wsRe = \<lparr>source = [Plus WS], ignoreCase = False\<rparr>"

text \<open>
  The markup normalizer, lines 68 to 70 of the source:
  \<^verbatim>\<open>inner.replace(/<[^>]*>/g, ' ').replace(/\s+/g, ' ').trim()\<close>
\<close>

definition normalize_inner :: "jsstring \<Rightarrow> jsstring" where
  "normalize_inner inner = trim (replace wsRe (js '' '') (replace tagRe (js '' '') inner))"

lemma source_trRe: "\<exists>k. source trRe = Chr (Lit lt) # k"
  by (simp add: trRe_def lits_def js_def lt_def)

lemma source_cellRe: "\<exists>k. source cellRe = Chr (Lit lt) # k"
  by (simp add: cellRe_def lits_def js_def lt_def)

text \<open>
  The inner loop \<^verbatim>\<open>while ((cell = cellRe.exec(trHtml)) !== null)\<close>; \<open>cell[2] || ''\<close>
  reads group 2.
\<close>

function cell_loop :: "jsstring \<Rightarrow> nat \<Rightarrow> jsstring list \<Rightarrow> jsstring list" where
  "cell_loop trHtml lastIndex cells =
     (case exec cellRe trHtml lastIndex of
        (None, _) \<Rightarrow> cells
      | (Some cell, lastIndex') \<Rightarrow>
          let inner = (case groups cell 2 of None \<Rightarrow> [] | Some v \<Rightarrow> v);
              inner = normalize_inner inner
          in cell_loop trHtml lastIndex' (cells @ [inner]))"
  by pat_completeness auto
termination
proof (relation "measure (\<lambda>(s, i, cells). length s - i)")
  show "wf (measure (\<lambda>(s, i, cells). length s - i))" by simp
next
  fix trHtml lastIndex cells and x :: "match option" and y cell and xb :: jsstring
  assume "(x, y) = exec cellRe trHtml lastIndex" and "x = Some cell"
  then have e: "exec cellRe trHtml lastIndex = (Some cell, y)" by simp
  from source_cellRe obtain k where k: "source cellRe = Chr (Lit lt) # k" by blast
  from exec_advances(1) [OF e k] exec_Some(3) [OF e]
  show "((trHtml, y, cells @ [xb]), trHtml, lastIndex, cells)
      \<in> measure (\<lambda>(s, i, cells). length s - i)"
    by simp
qed

declare cell_loop.simps [simp del]

text \<open>The outer loop \<^verbatim>\<open>while ((tr = trRe.exec(tableHtml)) !== null)\<close>.\<close>

function tr_loop :: "jsstring \<Rightarrow> nat \<Rightarrow> jsstring list list \<Rightarrow> jsstring list list" where
  "tr_loop tableHtml lastIndex rows =
     (case exec trRe tableHtml lastIndex of
        (None, _) \<Rightarrow> rows
      | (Some tr, lastIndex') \<Rightarrow>
          let trHtml = text0 tr;
              cells = cell_loop trHtml 0 []
          in tr_loop tableHtml lastIndex' (if length cells > 0 then rows @ [cells] else rows))"
  by pat_completeness auto
termination
proof (relation "measure (\<lambda>(s, i, rows). length s - i)")
  show "wf (measure (\<lambda>(s, i, rows). length s - i))" by simp
next
  fix tableHtml lastIndex rows and x :: "match option" and y tr and xb :: "jsstring list"
  assume "(x, y) = exec trRe tableHtml lastIndex" and "x = Some tr"
  then have e: "exec trRe tableHtml lastIndex = (Some tr, y)" by simp
  from source_trRe obtain k where k: "source trRe = Chr (Lit lt) # k" by blast
  from exec_advances(1) [OF e k] exec_Some(3) [OF e]
  show "((tableHtml, y, if 0 < length xb then rows @ [xb] else rows), tableHtml, lastIndex, rows)
      \<in> measure (\<lambda>(s, i, rows). length s - i)"
    by simp
qed

declare tr_loop.simps [simp del]

text \<open>
  \<open>parseTableHtmlToArray\<close>; the argument is \<open>None\<close> for \<open>null\<close>, and \<open>!tableHtml\<close> also
  holds of the empty string.
\<close>

definition parseTableHtmlToArray :: "jsstring option \<Rightarrow> jsstring list list" where
  "parseTableHtmlToArray tableHtml =
     (case tableHtml of
        None \<Rightarrow> []
      | Some s \<Rightarrow> if s = [] then [] else tr_loop s 0 [])"

section \<open>The table selector\<close>

text \<open>
  What the callback of \<^verbatim>\<open>page.$$eval('table', ...)\<close> sees of a table element: reading
  \<open>innerText\<close> may throw, may give a value that is not a string (\<open>undefined\<close>), or gives the
  rendered text; \<open>outerHTML\<close> is the element's markup.
\<close>

datatype inner_text = Throws | Undefined | Text jsstring

record candidate =
  innerText :: inner_text
  outerHTML :: jsstring

text \<open>
  The \<^verbatim>\<open>for (const t of tables)\<close> loop with its \<^verbatim>\<open>try { ... } catch(e){}\<close>; \<open>Some\<close> is the
  \<open>return\<close> inside the loop. The empty string is falsy, so it fails the first conjunct.
\<close>

fun select_loop :: "candidate list \<Rightarrow> jsstring option" where
  "select_loop [] = None"
| "select_loop (t # ts) =
     (case innerText t of
        Throws \<Rightarrow> select_loop ts
      | Undefined \<Rightarrow> select_loop ts
      | Text s \<Rightarrow>
          if s \<noteq> [] \<and> includes_js (toLowerCase s) (js ''papel'')
          then Some (outerHTML t)
          else select_loop ts)"

text \<open>\<open>extractTableFromPage\<close> on the tables of the page; \<open>None\<close> is \<open>null\<close>.\<close>

definition extractTableFromPage :: "candidate list \<Rightarrow> jsstring option" where
  "extractTableFromPage tables =
     (case select_loop tables of
        Some html \<Rightarrow> Some html
      | None \<Rightarrow> if length tables > 0 then Some (outerHTML (hd tables)) else None)"

section \<open>The run\<close>

text \<open>
  The body of the main function from the point where \<open>chromium.launch\<close> has returned the
  browser. The outside world is a record of what each awaited call does; the run is the
  list of the calls it makes, in order. Waits whose timeout is swallowed have no field.
\<close>

datatype control = QueryThrows | NoControl | Control bool

datatype event =
    NewContext
  | NewPage
  | Goto
  | Query jsstring
  | Click jsstring
  | WaitIdle
  | WaitTable
  | EvalTables
  | PageContent
  | WriteSheet "jsstring list list"
  | BrowserClose
  | Exit nat

record env =
  newContext_ok :: bool
  newPage_ok :: bool
  goto_ok :: bool
  control_of :: "jsstring \<Rightarrow> control"
  tables_of :: "candidate list option"
  content_ok :: bool
  write_ok :: bool
  close_ok :: bool

definition buttonTexts :: "jsstring list" where
  "buttonTexts = [js ''Filtrar'', js ''Gerar'', js ''Buscar'', js ''Pesquisar'', js ''Aplicar filtros'']"

text \<open>
  \<^verbatim>\<open>for (const t of buttonTexts)\<close>: \<open>page.$\<close> may throw (caught, next label), find nothing
  (next label) or find a button; then the button is clicked, a failed click and a timed-out
  wait are swallowed, and \<open>break\<close> leaves the loop.
\<close>

fun button_loop :: "(jsstring \<Rightarrow> control) \<Rightarrow> jsstring list \<Rightarrow> event list" where
  "button_loop ctl [] = []"
| "button_loop ctl (t # ts) =
     (case ctl t of
        QueryThrows \<Rightarrow> Query t # button_loop ctl ts
      | NoControl \<Rightarrow> Query t # button_loop ctl ts
      | Control clicked \<Rightarrow> [Query t, Click t, WaitIdle])"

datatype outcome = Exited | Thrown

definition try_block :: "env \<Rightarrow> event list \<times> outcome" where
  "try_block e =
     (if \<not> newContext_ok e then ([NewContext], Thrown)
      else if \<not> newPage_ok e then ([NewContext, NewPage], Thrown)
      else if \<not> goto_ok e then ([NewContext, NewPage, Goto], Thrown)
      else
        let t1 = [NewContext, NewPage, Goto] @ button_loop (control_of e) buttonTexts @
                 [WaitIdle, WaitTable, EvalTables]
        in case tables_of e of
             None \<Rightarrow> (t1, Thrown)
           | Some tables \<Rightarrow>
               let tableHtml = extractTableFromPage tables
               in if tableHtml = None \<or> tableHtml = Some []
                  then if content_ok e then (t1 @ [PageContent, Exit 2], Exited)
                       else (t1 @ [PageContent], Thrown)
                  else
                    let tableArray = parseTableHtmlToArray tableHtml
                    in if length tableArray = 0 then (t1 @ [Exit 3], Exited)
                       else if \<not> write_ok e then (t1 @ [WriteSheet tableArray], Thrown)
                       else if \<not> close_ok e
                       then (t1 @ [WriteSheet tableArray, BrowserClose], Thrown)
                       else (t1 @ [WriteSheet tableArray, BrowserClose, Exit 0], Exited))"

text \<open>
  \<open>process.exit\<close> ends the process where it is called; an exception reaches the
  \<open>catch\<close>, which closes the browser (ignoring a failure) and exits with 4.
\<close>

definition main :: "env \<Rightarrow> event list" where
  "main e =
     (case try_block e of
        (t, Exited) \<Rightarrow> t
      | (t, Thrown) \<Rightarrow> t @ [BrowserClose, Exit 4])"

section \<open>Notions of the specification\<close>

text \<open>A pattern occurs in a string, letter case ignored.\<close>

definition ci_prefix :: "jsstring \<Rightarrow> jsstring \<Rightarrow> bool" where
  "ci_prefix pat s \<longleftrightarrow>
     length pat \<le> length s \<and> map canonicalize (take (length pat) s) = map canonicalize pat"

fun ci_includes :: "jsstring \<Rightarrow> jsstring \<Rightarrow> bool" where
  "ci_includes pat [] = (pat = [])"
| "ci_includes pat (x # xs) = (ci_prefix pat (x # xs) \<or> ci_includes pat xs)"

text \<open>The number of positions at which a pattern occurs in a string, letter case ignored.\<close>

fun count_ci :: "jsstring \<Rightarrow> jsstring \<Rightarrow> nat" where
  "count_ci pat [] = 0"
| "count_ci pat (x # xs) = (if ci_prefix pat (x # xs) then 1 else 0) + count_ci pat xs"

text \<open>Two strings are equal up to letter case.\<close>

definition ci_eq :: "jsstring \<Rightarrow> jsstring \<Rightarrow> bool" where
  "ci_eq a b \<longleftrightarrow> map canonicalize a = map canonicalize b"

text \<open>A candidate's visible text contains the marker token.\<close>

definition has_marker :: "candidate \<Rightarrow> bool" where
  "has_marker t = (case innerText t of Text s \<Rightarrow> ci_includes (js ''papel'') s | _ \<Rightarrow> False)"

text \<open>The browser is closed at some point before the process exits.\<close>

fun closed_before_exit :: "event list \<Rightarrow> bool" where
  "closed_before_exit [] = False"
| "closed_before_exit (BrowserClose # t) = True"
| "closed_before_exit (Exit n # t) = False"
| "closed_before_exit (ev # t) = closed_before_exit t"

text \<open>An event is a click; a lookup found a control.\<close>

fun is_click :: "event \<Rightarrow> bool" where
  "is_click (Click t) = True"
| "is_click _ = False"

fun is_control :: "control \<Rightarrow> bool" where
  "is_control (Control b) = True"
| "is_control _ = False"

text \<open>
  The normalizer in the words of the specification: every tag-delimited substring, from a
  \<open><\<close> to the next \<open>>\<close>, is deleted (\<open>spec_delete_tags\<close>) or replaced by one space
  (\<open>spec_replace_tags\<close>); every run of whitespace becomes one space.
\<close>

text \<open>The text after the next \<open>>\<close>.\<close>

definition after_gt :: "jsstring \<Rightarrow> jsstring" where
  "after_gt cs = tl (dropWhile (\<lambda>x. x \<noteq> gt) cs)"

lemma length_after_gt [termination_simp]: "length (after_gt cs) \<le> length cs"
  unfolding after_gt_def
  by (metis diff_le_self le_trans length_dropWhile_le length_tl)

fun spec_replace_tags :: "jsstring \<Rightarrow> jsstring" where
  "spec_replace_tags [] = []"
| "spec_replace_tags (c # cs) =
     (if c = lt \<and> gt \<in> set cs then sp # spec_replace_tags (after_gt cs)
      else c # spec_replace_tags cs)"

fun spec_delete_tags :: "jsstring \<Rightarrow> jsstring" where
  "spec_delete_tags [] = []"
| "spec_delete_tags (c # cs) =
     (if c = lt \<and> gt \<in> set cs then spec_delete_tags (after_gt cs)
      else c # spec_delete_tags cs)"

lemma length_dropWhile_ws [termination_simp]:
  "length (dropWhile isWhiteSpace cs) \<le> length cs"
  by (rule length_dropWhile_le)

fun spec_collapse_ws :: "jsstring \<Rightarrow> jsstring" where
  "spec_collapse_ws [] = []"
| "spec_collapse_ws (c # cs) =
     (if isWhiteSpace c then sp # spec_collapse_ws (dropWhile isWhiteSpace cs)
      else c # spec_collapse_ws cs)"

definition spec_normalize :: "jsstring \<Rightarrow> jsstring" where
  "spec_normalize s = trim (spec_collapse_ws (spec_delete_tags s))"

text \<open>
  A string still holds a tag-delimited substring (a \<open><\<close> with a \<open>>\<close> somewhere after it),
  or two whitespace characters in a row.
\<close>

fun has_tag :: "jsstring \<Rightarrow> bool" where
  "has_tag [] = False"
| "has_tag (c # cs) = ((c = lt \<and> gt \<in> set cs) \<or> has_tag cs)"

fun has_ws_run :: "jsstring \<Rightarrow> bool" where
  "has_ws_run (a # b # cs) = ((isWhiteSpace a \<and> isWhiteSpace b) \<or> has_ws_run (b # cs))"
| "has_ws_run _ = False"

text \<open>
  The Cell a cell match yields, and matches that lie one after the other in the document:
  each ends before the next begins.
\<close>

definition cell_value :: "match \<Rightarrow> jsstring" where
  "cell_value cell = normalize_inner (case groups cell 2 of None \<Rightarrow> [] | Some v \<Rightarrow> v)"

definition in_document_order :: "match list \<Rightarrow> bool" where
  "in_document_order ms = sorted_wrt (\<lambda>a b. index a + length (text0 a) \<le> index b) ms"

text \<open>
  Well-formed markup of a single table, as the browser serialises it: rows \<open><tr ...>\<close> ...
  \<open></tr>\<close>, in each row cells \<open><td ...>\<close> ... \<open></td>\<close> or \<open><th ...>\<close> ... \<open></th>\<close>, and
  other text before each row, before each cell, after the last cell and after the last row.
  Attributes hold no angle bracket; the text around the cells holds no cell opening tag; a
  cell's content holds no closing tag of its own kind; a row holds no row end tag before its
  own; the text around the rows holds no row opening tag (rows are not nested).
\<close>

datatype kind = TD | TH

fun tag_name :: "kind \<Rightarrow> jsstring" where
  "tag_name TD = js ''td''"
| "tag_name TH = js ''th''"

datatype cell_elt = CellElt (ckind: kind) (cattrs: jsstring) (cinner: jsstring)

datatype row_elt = RowElt (rattrs: jsstring) (rcells: "(jsstring \<times> cell_elt) list") (rtail: jsstring)

datatype table_elt = TableElt (trows: "(jsstring \<times> row_elt) list") (ttail: jsstring)

definition render_cell :: "cell_elt \<Rightarrow> jsstring" where
  "render_cell c =
     [lt] @ tag_name (ckind c) @ cattrs c @ [gt] @ cinner c @ js ''</'' @ tag_name (ckind c) @ [gt]"

definition render_cells :: "(jsstring \<times> cell_elt) list \<Rightarrow> jsstring" where
  "render_cells cs = concat (map (\<lambda>(g, c). g @ render_cell c) cs)"

definition row_body :: "row_elt \<Rightarrow> jsstring" where
  "row_body r = rattrs r @ [gt] @ render_cells (rcells r) @ rtail r"

definition render_row :: "row_elt \<Rightarrow> jsstring" where
  "render_row r = js ''<tr'' @ row_body r @ js ''</tr>''"

definition render_rows :: "(jsstring \<times> row_elt) list \<Rightarrow> jsstring" where
  "render_rows rs = concat (map (\<lambda>(g, r). g @ render_row r) rs)"

definition render_table :: "table_elt \<Rightarrow> jsstring" where
  "render_table t = render_rows (trows t) @ ttail t"

definition wf_attrs :: "jsstring \<Rightarrow> bool" where
  "wf_attrs a \<longleftrightarrow> lt \<notin> set a \<and> gt \<notin> set a \<and> (a = [] \<or> isWhiteSpace (hd a))"

definition no_cell_open :: "jsstring \<Rightarrow> bool" where
  "no_cell_open g \<longleftrightarrow> \<not> ci_includes (js ''<td'') g \<and> \<not> ci_includes (js ''<th'') g"

definition wf_cell :: "cell_elt \<Rightarrow> bool" where
  "wf_cell c \<longleftrightarrow>
     wf_attrs (cattrs c) \<and> \<not> ci_includes (js ''</'' @ tag_name (ckind c) @ [gt]) (cinner c)"

definition wf_row :: "row_elt \<Rightarrow> bool" where
  "wf_row r \<longleftrightarrow>
     wf_attrs (rattrs r) \<and> list_all (\<lambda>(g, c). no_cell_open g \<and> wf_cell c) (rcells r) \<and>
     no_cell_open (rtail r) \<and> \<not> ci_includes (js ''</tr>'') (row_body r)"

definition wf_table :: "table_elt \<Rightarrow> bool" where
  "wf_table t \<longleftrightarrow>
     list_all (\<lambda>(g, r). \<not> ci_includes (js ''<tr'') g \<and> wf_row r) (trows t) \<and>
     \<not> ci_includes (js ''<tr'') (ttail t)"

section \<open>Searching on the rest of the input\<close>

text \<open>
  The search of \<open>scan\<close> without the position count: the text before the match, the
  captures and the text after the match.
\<close>

fun fm :: "bool \<Rightarrow> node list \<Rightarrow> jsstring \<Rightarrow> (jsstring \<times> mstate \<times> jsstring) option" where
  "fm ic p [] = (case mt ic p [] st0 of Some (st, rest) \<Rightarrow> Some ([], st, rest) | None \<Rightarrow> None)"
| "fm ic p (x # xs) =
     (case mt ic p (x # xs) st0 of
        Some (st, rest) \<Rightarrow> Some ([], st, rest)
      | None \<Rightarrow> map_option (\<lambda>(b, st, rest). (x # b, st, rest)) (fm ic p xs))"

text \<open>What is left of a string after the first occurrence of a pattern, letter case ignored.\<close>

fun after_ci :: "jsstring \<Rightarrow> jsstring \<Rightarrow> jsstring option" where
  "after_ci pat [] = (if pat = [] then Some [] else None)"
| "after_ci pat (x # xs) =
     (if ci_prefix pat (x # xs) then Some (drop (length pat) (x # xs)) else after_ci pat xs)"

text \<open>A stretch of text at none of whose positions a cell match begins, when a tag follows it.\<close>

definition dead_gap :: "jsstring \<Rightarrow> bool" where
  "dead_gap g \<longleftrightarrow>
     (\<forall>k < length g. \<forall>w. mt True (source cellRe) (drop k g @ lt # w) st0 = None)"

section \<open>Properties of the selector and of the run\<close>

lemma lower_canon:
  assumes "0x61 \<le> p" "p \<le> 0x7A"
  shows "(if 0x41 \<le> x \<and> x \<le> 0x5A then x + 0x20 else x) = p \<longleftrightarrow> canonicalize x = canonicalize (p :: cu)"
  using assms unfolding canonicalize_def
  by (auto simp: word_le_nat_alt word_less_nat_alt unat_word_ariths unat_sub word_eq_iff_unsigned[where ?'a=nat]) 

lemma take_lower_eq:
  "\<forall>c \<in> set pat. 0x61 \<le> c \<and> c \<le> 0x7A \<Longrightarrow>
     (take (length pat) (toLowerCase s) = pat) = ci_prefix pat s"
proof (induction pat arbitrary: s)
  case Nil
  then show ?case by (simp add: ci_prefix_def)
next
  case (Cons p ps)
  show ?case
  proof (cases s)
    case Nil
    then show ?thesis by (simp add: ci_prefix_def toLowerCase_def)
  next
    case (Cons x xs)
    from Cons.prems have p: "0x61 \<le> p" "p \<le> 0x7A" and ps: "\<forall>c \<in> set ps. 0x61 \<le> c \<and> c \<le> 0x7A"
      by auto
    have "(take (length ps) (toLowerCase xs) = ps) = ci_prefix ps xs"
      using Cons.IH [OF ps] .
    then show ?thesis
      using lower_canon [OF p, of x] Cons
      by (auto simp: ci_prefix_def toLowerCase_def)
  qed
qed

lemma includes_lower:
  "\<forall>c \<in> set pat. 0x61 \<le> c \<and> c \<le> 0x7A \<Longrightarrow>
     includes_js (toLowerCase s) pat = ci_includes pat s"
proof (induction s)
  case Nil
  then show ?case by (simp add: toLowerCase_def)
next
  case (Cons x xs)
  have "toLowerCase (x # xs) = hd (toLowerCase (x # xs)) # toLowerCase xs"
    by (simp add: toLowerCase_def)
  then have "includes_js (toLowerCase (x # xs)) pat =
      (take (length pat) (toLowerCase (x # xs)) = pat \<or> includes_js (toLowerCase xs) pat)"
    by (metis includes_js.simps(2))
  then show ?case
    using Cons take_lower_eq [OF Cons.prems, of "x # xs"] by simp
qed

lemma papel_lower: "\<forall>c \<in> set (js ''papel''). 0x61 \<le> c \<and> c \<le> 0x7A"
  by (simp add: js_def)

lemma papel_not_in_empty: "\<not> ci_includes (js ''papel'') []"
  by (simp add: js_def)

lemma select_loop_step:
  "select_loop (t # ts) = (if has_marker t then Some (outerHTML t) else select_loop ts)"
proof (cases "innerText t")
  case (Text s)
  then show ?thesis
    using includes_lower [OF papel_lower, of s] papel_not_in_empty
    by (cases "s = []") (auto simp: has_marker_def)
qed (simp_all add: has_marker_def)

lemma select_loop_skip:
  "\<forall>c \<in> set pre. \<not> has_marker c \<Longrightarrow> select_loop (pre @ ts) = select_loop ts"
  by (induction pre) (simp_all add: select_loop_step del: select_loop.simps)

lemma select_loop_none:
  "\<forall>c \<in> set ts. \<not> has_marker c \<Longrightarrow> select_loop ts = None"
  using select_loop_skip [of ts "[]"] by simp

text \<open>
  Claim C4. When some candidate's visible text contains the marker, letter case ignored,
  the selector returns the markup of the first such candidate in document order, whatever
  stands before or after it; for the candidates with texts "Foo bar" and "Papel coisa" it
  returns the second one's markup.
\<close>

theorem selector_first_match:
  "((\<forall>c \<in> set pre. \<not> has_marker c) \<and> has_marker t \<longrightarrow>
      extractTableFromPage (pre @ t # post) = Some (outerHTML t))
   \<and> extractTableFromPage
        [\<lparr>innerText = Text (js ''Foo bar''), outerHTML = X\<rparr>,
         \<lparr>innerText = Text (js ''Papel coisa''), outerHTML = Y\<rparr>] = Some Y"
proof (intro conjI impI)
  assume a: "(\<forall>c \<in> set pre. \<not> has_marker c) \<and> has_marker t"
  then have "select_loop (pre @ t # post) = Some (outerHTML t)"
    by (simp add: select_loop_skip select_loop_step del: select_loop.simps)
  then show "extractTableFromPage (pre @ t # post) = Some (outerHTML t)"
    by (simp add: extractTableFromPage_def)
next
  have 1: "\<not> has_marker \<lparr>innerText = Text (js ''Foo bar''), outerHTML = X\<rparr>"
    by (simp add: has_marker_def js_def ci_prefix_def canonicalize_def)
  have 2: "has_marker \<lparr>innerText = Text (js ''Papel coisa''), outerHTML = Y\<rparr>"
    by (simp add: has_marker_def js_def ci_prefix_def canonicalize_def)
  show "extractTableFromPage
        [\<lparr>innerText = Text (js ''Foo bar''), outerHTML = X\<rparr>,
         \<lparr>innerText = Text (js ''Papel coisa''), outerHTML = Y\<rparr>] = Some Y"
    using 1 2 by (simp add: extractTableFromPage_def select_loop_step del: select_loop.simps)
qed

theorem selector_first_match_witness:
  "\<not> has_marker \<lparr>innerText = Throws, outerHTML = js ''<table>a</table>''\<rparr>
   \<and> has_marker \<lparr>innerText = Text (js ''Cotacao PAPEL''), outerHTML = js ''<table>b</table>''\<rparr>
   \<and> extractTableFromPage
         [\<lparr>innerText = Throws, outerHTML = js ''<table>a</table>''\<rparr>,
          \<lparr>innerText = Text (js ''Cotacao PAPEL''), outerHTML = js ''<table>b</table>''\<rparr>]
       = Some (js ''<table>b</table>'')"
proof -
  have h: "(\<forall>c \<in> set [\<lparr>innerText = Throws, outerHTML = js ''<table>a</table>''\<rparr>]. \<not> has_marker c)
     \<and> has_marker \<lparr>innerText = Text (js ''Cotacao PAPEL''), outerHTML = js ''<table>b</table>''\<rparr>"
    by (simp add: has_marker_def js_def ci_prefix_def canonicalize_def)
  from h selector_first_match [of "[\<lparr>innerText = Throws, outerHTML = js ''<table>a</table>''\<rparr>]"
      "\<lparr>innerText = Text (js ''Cotacao PAPEL''), outerHTML = js ''<table>b</table>''\<rparr>" "[]"]
  show ?thesis by simp
qed

text \<open>
  Claim C5. When no candidate's visible text contains the marker, the selector returns the
  first candidate's markup, and \<open>null\<close> for no candidates at all; a candidate whose text
  cannot be read is a non-match and the loop goes on to the next one; the selector returns
  \<open>null\<close> exactly for the empty candidate list.
\<close>

theorem selector_fallback_total:
  "((\<forall>c \<in> set tables. \<not> has_marker c) \<longrightarrow>
      extractTableFromPage tables = (case tables of [] \<Rightarrow> None | t # ts \<Rightarrow> Some (outerHTML t)))
   \<and> (innerText c = Throws \<longrightarrow> \<not> has_marker c \<and> select_loop (c # tables) = select_loop tables)
   \<and> (extractTableFromPage tables = None \<longleftrightarrow> tables = [])"
proof (intro conjI impI)
  assume "\<forall>c \<in> set tables. \<not> has_marker c"
  then show "extractTableFromPage tables = (case tables of [] \<Rightarrow> None | t # ts \<Rightarrow> Some (outerHTML t))"
    by (simp add: extractTableFromPage_def select_loop_none split: list.splits)
next
  assume "innerText c = Throws"
  then show "\<not> has_marker c" by (simp add: has_marker_def)
next
  assume "innerText c = Throws"
  then show "select_loop (c # tables) = select_loop tables" by simp
next
  show "extractTableFromPage tables = None \<longleftrightarrow> tables = []"
    by (cases tables) (auto simp: extractTableFromPage_def split: option.splits)
qed

theorem selector_fallback_total_witness:
  "\<not> has_marker \<lparr>innerText = Throws, outerHTML = js ''<table>a</table>''\<rparr>
   \<and> \<not> has_marker \<lparr>innerText = Text (js ''Foo bar''), outerHTML = js ''<table>b</table>''\<rparr>
   \<and> extractTableFromPage
         [\<lparr>innerText = Throws, outerHTML = js ''<table>a</table>''\<rparr>,
          \<lparr>innerText = Text (js ''Foo bar''), outerHTML = js ''<table>b</table>''\<rparr>]
       = Some (js ''<table>a</table>'')
   \<and> extractTableFromPage [] = None"
proof -
  have h: "\<forall>c \<in> set [\<lparr>innerText = Throws, outerHTML = js ''<table>a</table>''\<rparr>,
               \<lparr>innerText = Text (js ''Foo bar''), outerHTML = js ''<table>b</table>''\<rparr>].
      \<not> has_marker c"
    by (simp add: has_marker_def js_def ci_prefix_def canonicalize_def)
  from h selector_fallback_total [of "[\<lparr>innerText = Throws, outerHTML = js ''<table>a</table>''\<rparr>,
               \<lparr>innerText = Text (js ''Foo bar''), outerHTML = js ''<table>b</table>''\<rparr>]"]
    selector_fallback_total [of "[]"]
  show ?thesis by simp
qed

lemma button_loop_skip:
  "\<forall>l \<in> set pre. \<not> is_control (ctl l) \<Longrightarrow>
     button_loop ctl (pre @ ts) = map Query pre @ button_loop ctl ts"
proof (induction pre)
  case Nil
  then show ?case by simp
next
  case (Cons l pre)
  then show ?case by (cases "ctl l") auto
qed

lemma button_loop_clicks: "length (filter is_click (button_loop ctl ls)) \<le> 1"
proof (induction ls)
  case Nil
  then show ?case by simp
next
  case (Cons l ls)
  then show ?case by (cases "ctl l") auto
qed

text \<open>
  Claim C9. The labels are tried in order; the loop makes at most one click; labels without
  a control are passed over, the first label with a control is clicked and no later label
  is looked up; when no label has a control, every label is looked up and nothing is
  clicked.
\<close>

theorem button_loop_first_control:
  "length (filter is_click (button_loop ctl ls)) \<le> 1
   \<and> ((\<forall>l \<in> set pre. \<not> is_control (ctl l)) \<and> is_control (ctl t) \<longrightarrow>
        button_loop ctl (pre @ t # post) = map Query pre @ [Query t, Click t, WaitIdle])
   \<and> ((\<forall>l \<in> set ls. \<not> is_control (ctl l)) \<longrightarrow> button_loop ctl ls = map Query ls)"
proof (intro conjI impI)
  show "length (filter is_click (button_loop ctl ls)) \<le> 1"
    by (rule button_loop_clicks)
next
  assume a: "(\<forall>l \<in> set pre. \<not> is_control (ctl l)) \<and> is_control (ctl t)"
  then have "button_loop ctl (t # post) = [Query t, Click t, WaitIdle]"
    by (cases "ctl t") auto
  with a show "button_loop ctl (pre @ t # post) = map Query pre @ [Query t, Click t, WaitIdle]"
    by (simp add: button_loop_skip)
next
  assume "\<forall>l \<in> set ls. \<not> is_control (ctl l)"
  from button_loop_skip [OF this, of "[]"] show "button_loop ctl ls = map Query ls" by simp
qed

theorem button_loop_first_control_witness:
  "\<not> is_control ((\<lambda>l. if l = js ''Buscar'' \<or> l = js ''Pesquisar'' then Control True else NoControl)
        (js ''Filtrar''))
   \<and> \<not> is_control ((\<lambda>l. if l = js ''Buscar'' \<or> l = js ''Pesquisar'' then Control True else NoControl)
        (js ''Gerar''))
   \<and> is_control ((\<lambda>l. if l = js ''Buscar'' \<or> l = js ''Pesquisar'' then Control True else NoControl)
        (js ''Buscar''))
   \<and> button_loop (\<lambda>l. if l = js ''Buscar'' \<or> l = js ''Pesquisar'' then Control True else NoControl)
        buttonTexts
      = [Query (js ''Filtrar''), Query (js ''Gerar''), Query (js ''Buscar''), Click (js ''Buscar''),
         WaitIdle]"
proof -
  let ?ctl = "\<lambda>l. if l = js ''Buscar'' \<or> l = js ''Pesquisar'' then Control True else NoControl"
  have h: "(\<forall>l \<in> set [js ''Filtrar'', js ''Gerar'']. \<not> is_control (?ctl l))
     \<and> is_control (?ctl (js ''Buscar''))"
    by (simp add: js_def)
  have b: "buttonTexts = [js ''Filtrar'', js ''Gerar''] @ js ''Buscar'' # [js ''Pesquisar'', js ''Aplicar filtros'']"
    by (simp add: buttonTexts_def)
  from h button_loop_first_control [of ?ctl _ "[js ''Filtrar'', js ''Gerar'']" "js ''Buscar''"
      "[js ''Pesquisar'', js ''Aplicar filtros'']"]
  show ?thesis unfolding b by simp
qed

lemma closed_before_exit_app:
  "\<forall>ev \<in> set a. ev \<noteq> BrowserClose \<and> (\<forall>n. ev \<noteq> Exit n) \<Longrightarrow>
     closed_before_exit (a @ b) = closed_before_exit b"
proof (induction a)
  case Nil
  then show ?case by simp
next
  case (Cons ev a)
  then show ?case by (cases ev) auto
qed

lemma button_loop_events:
  "\<forall>ev \<in> set (button_loop ctl ls). ev \<noteq> BrowserClose \<and> (\<forall>n. ev \<noteq> Exit n)"
proof (induction ls)
  case Nil
  then show ?case by simp
next
  case (Cons l ls)
  then show ?case by (cases "ctl l") auto
qed

text \<open>
  Claim C3. The claim says that the browser is closed before every exit. On a page
  without any table the run exits with 2, and on a table without a parsable row it exits
  with 3, in both cases without closing the browser.
\<close>

theorem exit_without_close:
  "main \<lparr>newContext_ok = True, newPage_ok = True, goto_ok = True,
         control_of = (\<lambda>l. NoControl), tables_of = Some [],
         content_ok = True, write_ok = True, close_ok = True\<rparr>
     = [NewContext, NewPage, Goto, Query (js ''Filtrar''), Query (js ''Gerar''),
        Query (js ''Buscar''), Query (js ''Pesquisar''), Query (js ''Aplicar filtros''),
        WaitIdle, WaitTable, EvalTables, PageContent, Exit 2]
   \<and> \<not> closed_before_exit
        (main \<lparr>newContext_ok = True, newPage_ok = True, goto_ok = True,
           control_of = (\<lambda>l. NoControl), tables_of = Some [],
           content_ok = True, write_ok = True, close_ok = True\<rparr>)
   \<and> main \<lparr>newContext_ok = True, newPage_ok = True, goto_ok = True,
         control_of = (\<lambda>l. NoControl),
         tables_of = Some [\<lparr>innerText = Text (js ''Papel''), outerHTML = js ''<table><tr><td>Papel</table>''\<rparr>],
         content_ok = True, write_ok = True, close_ok = True\<rparr>
     = [NewContext, NewPage, Goto, Query (js ''Filtrar''), Query (js ''Gerar''),
        Query (js ''Buscar''), Query (js ''Pesquisar''), Query (js ''Aplicar filtros''),
        WaitIdle, WaitTable, EvalTables, Exit 3]"
  by code_simp

text \<open>The browser is closed before the exit exactly on the runs that exit with 0 or 4.\<close>

lemma closed_t1:
  "closed_before_exit ([NewContext, NewPage, Goto] @ button_loop ctl ls @ [WaitIdle, WaitTable, EvalTables] @ b)
     = closed_before_exit b"
proof -
  have "closed_before_exit (button_loop ctl ls @ ([WaitIdle, WaitTable, EvalTables] @ b))
      = closed_before_exit ([WaitIdle, WaitTable, EvalTables] @ b)"
    using button_loop_events by (rule closed_before_exit_app)
  then show ?thesis by simp
qed

lemma main_closes_iff:
  "closed_before_exit (main e) \<longleftrightarrow> last (main e) = Exit 0 \<or> last (main e) = Exit 4"
  using closed_t1 [of "control_of e" buttonTexts]
  by (auto simp: main_def try_block_def Let_def split: option.splits)

section \<open>Properties of the regular expressions and of the normalizer\<close>

lemma scan_fm:
  "scan ic p u i = map_option (\<lambda>(b, st, rest). (i + length b, st, rest)) (fm ic p u)"
proof (induction u arbitrary: i)
  case Nil
  then show ?case by (simp split: option.splits)
next
  case (Cons x xs)
  then show ?case by (cases "fm ic p xs") (auto split: option.splits)
qed

lemma fm_decomp:
  "fm ic p u = Some (b, st, rest) \<Longrightarrow>
     \<exists>m. u = b @ m @ rest \<and> mt ic p (m @ rest) st0 = Some (st, rest)"
proof (induction u arbitrary: b)
  case Nil
  then show ?case by (auto split: option.splits dest: mt_suffix)
next
  case (Cons x xs)
  show ?case
  proof (cases "mt ic p (x # xs) st0")
    case None
    with Cons.prems obtain b' where b: "b = x # b'" and f: "fm ic p xs = Some (b', st, rest)"
      by auto
    from Cons.IH [OF f] b show ?thesis by auto
  next
    case (Some r)
    with Cons.prems have b: "b = []" and r: "r = (st, rest)" by (auto split: prod.splits)
    from Some r obtain m where "x # xs = m @ rest" using mt_suffix by blast
    with Some r b show ?thesis by auto
  qed
qed

lemma exec_fm_None:
  "i \<le> length s \<Longrightarrow> fm (ignoreCase r) (source r) (drop i s) = None \<Longrightarrow> exec r s i = (None, 0)"
  by (simp add: exec_def scan_fm)

lemma exec_fm_Some:
  assumes "i \<le> length s" and "fm (ignoreCase r) (source r) (drop i s) = Some (b, st, rest)"
  shows "\<exists>m. drop i s = b @ m @ rest
           \<and> mt (ignoreCase r) (source r) (m @ rest) st0 = Some (st, rest)
           \<and> exec r s i = (Some \<lparr>index = i + length b, text0 = m, groups = caps st\<rparr>,
                            i + length b + length m)"
proof -
  from fm_decomp [OF assms(2)] obtain m where
    d: "drop i s = b @ m @ rest" and m: "mt (ignoreCase r) (source r) (m @ rest) st0 = Some (st, rest)"
    by blast
  from d have l: "length s - i = length b + length m + length rest"
    by (metis length_append length_drop add.assoc)
  from l assms(1) have e: "length s - length rest = i + length b + length m" by arith
  have "drop (i + length b) s = drop (length b) (drop i s)" by (simp add: add.commute)
  also have "\<dots> = m @ rest" using d by simp
  finally have t: "take (i + length b + length m - (i + length b)) (drop (i + length b) s) = m"
    by simp
  have sc: "scan (ignoreCase r) (source r) (drop i s) i = Some (i + length b, st, rest)"
    by (simp add: scan_fm assms(2))
  have "exec r s i =
      (let e = length s - length rest
       in (Some \<lparr>index = i + length b,
                 text0 = take (e - (i + length b)) (drop (i + length b) s),
                 groups = caps st\<rparr>, e))"
    using assms(1) sc by (simp add: exec_def)
  then have "exec r s i = (Some \<lparr>index = i + length b, text0 = m, groups = caps st\<rparr>,
                            i + length b + length m)"
    by (simp only: Let_def e t)
  with d m show ?thesis by blast
qed

text \<open>Skipping a prefix at none of whose positions the pattern matches.\<close>

lemma fm_skip:
  "(\<And>k. k < length g \<Longrightarrow> mt ic p (drop k g @ u) st0 = None) \<Longrightarrow>
     fm ic p (g @ u) = map_option (\<lambda>(b, st, rest). (g @ b, st, rest)) (fm ic p u)"
proof (induction g)
  case Nil
  then show ?case by (simp add: option.map_ident case_prod_beta' split_def)
next
  case (Cons x g)
  from Cons.prems [of 0] have h: "mt ic p (x # g @ u) st0 = None" by simp
  have "\<And>k. k < length g \<Longrightarrow> mt ic p (drop k g @ u) st0 = None"
    using Cons.prems [of "Suc _"] by simp
  from Cons.IH [OF this] h show ?case
    by (cases "fm ic p u") (auto)
qed

lemma fm_hit:
  "mt ic p u st0 = Some (st, rest) \<Longrightarrow> fm ic p u = Some ([], st, rest)"
  by (cases u) auto

lemma fm_none:
  "(\<And>k. k \<le> length u \<Longrightarrow> mt ic p (drop k u) st0 = None) \<Longrightarrow> fm ic p u = None"
proof (induction u)
  case Nil
  from Nil [of 0] show ?case by simp
next
  case (Cons x u)
  from Cons.prems [of 0] have h: "mt ic p (x # u) st0 = None" by simp
  have "\<And>k. k \<le> length u \<Longrightarrow> mt ic p (drop k u) st0 = None"
    using Cons.prems [of "Suc _"] by simp
  from Cons.IH [OF this] h show ?case by simp
qed

text \<open>Global replacement by a regex that never matches the empty string.\<close>

lemma replace_build:
  "i \<le> length s \<Longrightarrow> source r = Chr cc # k \<or> source r = Plus cc # k \<Longrightarrow>
   (\<And>u. G u = (case fm (ignoreCase r) (source r) u of
                  None \<Rightarrow> u
                | Some (b, st, rest) \<Rightarrow> b @ rep @ G rest)) \<Longrightarrow>
   build s rep i (match_all r s i) = G (drop i s)"
proof (induction r s i rule: match_all.induct)
  case (1 r s i)
  note le0 = "1.prems"(1) and ne = "1.prems"(2) and G = "1.prems"(3)
  show ?case
  proof (cases "fm (ignoreCase r) (source r) (drop i s)")
    case None
    from exec_fm_None [OF le0 None] have "match_all r s i = []"
      by (subst match_all.simps) simp
    moreover have "G (drop i s) = drop i s"
      by (subst G) (simp add: None)
    ultimately show ?thesis by simp
  next
    case (Some t)
    obtain b st rest where t: "t = (b, st, rest)" by (cases t)
    from exec_fm_Some [OF le0 Some [unfolded t]] obtain m where
      d: "drop i s = b @ m @ rest"
      and mm: "mt (ignoreCase r) (source r) (m @ rest) st0 = Some (st, rest)"
      and e: "exec r s i = (Some \<lparr>index = i + length b, text0 = m, groups = caps st\<rparr>,
                            i + length b + length m)"
      by blast
    from ne mm have "length rest < length (m @ rest)"
      using mt_Chr_length_less mt_Plus_length_less by metis
    then have mne: "m \<noteq> []" by auto
    from d have l: "length s - i = length b + length m + length rest"
      by (metis length_append length_drop add.assoc)
    with le0 have le: "i + length b + length m \<le> length s" by arith
    have dr: "drop (i + length b + length m) s = rest"
    proof -
      have "drop (i + length b + length m) s = drop (length b + length m) (drop i s)"
        by (simp add: add.commute add.left_commute)
      then show ?thesis using d by simp
    qed
    have ma: "match_all r s i = \<lparr>index = i + length b, text0 = m, groups = caps st\<rparr> #
        match_all r s (i + length b + length m)"
      using e mne by (subst match_all.simps) simp
    have "build s rep (if text0 \<lparr>index = i + length b, text0 = m, groups = caps st\<rparr> = []
              then Suc (i + length b + length m) else i + length b + length m)
            (match_all r s (if text0 \<lparr>index = i + length b, text0 = m, groups = caps st\<rparr> = []
              then Suc (i + length b + length m) else i + length b + length m))
          = G (drop (if text0 \<lparr>index = i + length b, text0 = m, groups = caps st\<rparr> = []
              then Suc (i + length b + length m) else i + length b + length m) s)"
      using mne le ne by (intro "1.IH" [OF e [symmetric] refl _ _ G]) auto
    then have ih: "build s rep (i + length b + length m) (match_all r s (i + length b + length m)) = G rest"
      using mne dr by simp
    have tk: "take (length b) (drop i s) = b" using d by simp
    have "G (drop i s) = b @ rep @ G rest"
      by (subst G) (simp add: Some t)
    then show ?thesis
      using ma ih tk by simp
  qed
qed

lemma replace_eq:
  assumes "source r = Chr cc # k \<or> source r = Plus cc # k"
    and "\<And>u. G u = (case fm (ignoreCase r) (source r) u of
                           None \<Rightarrow> u
                         | Some (b, st, rest) \<Rightarrow> b @ rep @ G rest)"
  shows "replace r rep s = G s"
  using replace_build [of 0 s r cc k G rep] assms by (simp add: replace_def)

lemma canon_nonletter:
  "\<not> (0x41 \<le> c \<and> c \<le> 0x5A) \<Longrightarrow> \<not> (0x61 \<le> c \<and> c \<le> 0x7A) \<Longrightarrow>
     (canonicalize x = canonicalize c) = (x = (c :: cu))"
  unfolding canonicalize_def
  by (auto simp: word_le_nat_alt word_less_nat_alt unat_word_ariths unat_sub word_eq_iff_unsigned[where ?'a=nat])

lemma canon_gt [simp]: "(canonicalize x = canonicalize gt) = (x = gt)"
  by (rule canon_nonletter) (simp_all add: gt_def)

lemma canon_lt [simp]: "(canonicalize x = canonicalize lt) = (x = lt)"
  by (rule canon_nonletter) (simp_all add: lt_def)

lemma mt_tag_tail:
  "mt ic (Star True (NotLit gt) # Chr (Lit gt) # K) w st =
     (if gt \<in> set w then mt ic K (after_gt w) st else None)"
  by (induction w) (auto simp: after_gt_def split: option.splits)

lemma source_tagRe: "source tagRe = [Chr (Lit lt), Star True (NotLit gt), Chr (Lit gt)]"
  by (simp add: tagRe_def lits_def js_def lt_def gt_def)

lemma mt_tagRe:
  "mt False (source tagRe) u st =
     (case u of [] \<Rightarrow> None
      | c # cs \<Rightarrow> if c = lt \<and> gt \<in> set cs then Some (st, after_gt cs) else None)"
  by (cases u) (simp_all add: source_tagRe mt_tag_tail)

lemma spec_replace_tags_fm:
  "spec_replace_tags u =
     (case fm False (source tagRe) u of
        None \<Rightarrow> u
      | Some (b, st, rest) \<Rightarrow> b @ js '' '' @ spec_replace_tags rest)"
proof (induction u)
  case Nil
  then show ?case by (simp add: mt_tagRe)
next
  case (Cons c cs)
  show ?case
  proof (cases "c = lt \<and> gt \<in> set cs")
    case True
    then show ?thesis by (simp add: mt_tagRe js_def sp_def)
  next
    case False
    then have "mt False (source tagRe) (c # cs) st0 = None" by (simp add: mt_tagRe)
    then have f: "fm False (source tagRe) (c # cs) =
        map_option (\<lambda>(b, st, rest). (c # b, st, rest)) (fm False (source tagRe) cs)"
      by simp
    from False have g: "spec_replace_tags (c # cs) = c # spec_replace_tags cs" by auto
    show ?thesis unfolding f g using Cons.IH by (auto split: option.splits)
  qed
qed

lemma replace_tagRe: "replace tagRe (js '' '') s = spec_replace_tags s"
proof (rule replace_eq)
  show "source tagRe = Chr (Lit lt) # [Star True (NotLit gt), Chr (Lit gt)] \<or>
        source tagRe = Plus (Lit lt) # [Star True (NotLit gt), Chr (Lit gt)]"
    by (simp add: source_tagRe)
  show "\<And>u. spec_replace_tags u =
         (case fm (ignoreCase tagRe) (source tagRe) u of None \<Rightarrow> u
          | Some (b, st, rest) \<Rightarrow> b @ js '' '' @ spec_replace_tags rest)"
    using spec_replace_tags_fm by (simp add: tagRe_def)
qed

lemma mt_star_ws: "mt ic [Star True WS] w st = Some (st, dropWhile isWhiteSpace w)"
  by (induction w) auto

lemma mt_wsRe:
  "mt False (source wsRe) u st =
     (case u of [] \<Rightarrow> None
      | c # cs \<Rightarrow> if isWhiteSpace c then Some (st, dropWhile isWhiteSpace cs) else None)"
  by (cases u) (simp_all add: wsRe_def mt_star_ws)

lemma spec_collapse_ws_fm:
  "spec_collapse_ws u =
     (case fm False (source wsRe) u of
        None \<Rightarrow> u
      | Some (b, st, rest) \<Rightarrow> b @ js '' '' @ spec_collapse_ws rest)"
proof (induction u)
  case Nil
  then show ?case by (simp add: mt_wsRe)
next
  case (Cons c cs)
  show ?case
  proof (cases "isWhiteSpace c")
    case True
    then show ?thesis by (simp add: mt_wsRe js_def sp_def)
  next
    case False
    then have "mt False (source wsRe) (c # cs) st0 = None" by (simp add: mt_wsRe)
    then have f: "fm False (source wsRe) (c # cs) =
        map_option (\<lambda>(b, st, rest). (c # b, st, rest)) (fm False (source wsRe) cs)"
      by simp
    from False have g: "spec_collapse_ws (c # cs) = c # spec_collapse_ws cs" by auto
    show ?thesis unfolding f g using Cons.IH by (auto split: option.splits)
  qed
qed

lemma replace_wsRe: "replace wsRe (js '' '') s = spec_collapse_ws s"
proof (rule replace_eq)
  show "source wsRe = Chr WS # [] \<or> source wsRe = Plus WS # []"
    by (simp add: wsRe_def)
  show "\<And>u. spec_collapse_ws u =
         (case fm (ignoreCase wsRe) (source wsRe) u of None \<Rightarrow> u
          | Some (b, st, rest) \<Rightarrow> b @ js '' '' @ spec_collapse_ws rest)"
    using spec_collapse_ws_fm by (simp add: wsRe_def)
qed

lemma normalize_inner_eq:
  "normalize_inner s = trim (spec_collapse_ws (spec_replace_tags s))"
  by (simp add: normalize_inner_def replace_tagRe replace_wsRe)

subsection \<open>What the normalizer leaves\<close>

lemma ws_not_bracket [simp]:
  "\<not> isWhiteSpace lt" "\<not> isWhiteSpace gt" "sp \<noteq> lt" "sp \<noteq> gt" "isWhiteSpace sp" "lt \<noteq> gt"
  "lt \<noteq> sp" "gt \<noteq> sp" "gt \<noteq> lt"
  by (simp_all add: isWhiteSpace_def lt_def gt_def sp_def)

lemma set_after_gt: "set (after_gt cs) \<subseteq> set cs"
  unfolding after_gt_def
  by (metis list.set_sel(2) set_dropWhileD subsetI tl_Nil)

lemma set_spec_replace_tags: "set (spec_replace_tags s) \<subseteq> insert sp (set s)"
proof (induction s rule: spec_replace_tags.induct)
  case 1
  then show ?case by simp
next
  case (2 c cs)
  then show ?case using set_after_gt [of cs] by auto
qed

lemma no_tag_spec_replace_tags: "\<not> has_tag (spec_replace_tags s)"
proof (induction s rule: spec_replace_tags.induct)
  case 1
  then show ?case by simp
next
  case (2 c cs)
  then show ?case using set_spec_replace_tags [of cs] by auto
qed

lemma has_tag_filter: "has_tag s = has_tag (filter (\<lambda>c. c = lt \<or> c = gt) s)"
  by (induction s) auto

lemma filter_dropWhile_ws:
  "filter (\<lambda>c. c = lt \<or> c = gt) (dropWhile isWhiteSpace s) = filter (\<lambda>c. c = lt \<or> c = gt) s"
  by (induction s) auto

lemma filter_spec_collapse_ws:
  "filter (\<lambda>c. c = lt \<or> c = gt) (spec_collapse_ws s) = filter (\<lambda>c. c = lt \<or> c = gt) s"
proof (induction s rule: spec_collapse_ws.induct)
  case 1
  then show ?case by simp
next
  case (2 c cs)
  then show ?case using filter_dropWhile_ws [of cs] by auto
qed

lemma filter_trim:
  "filter (\<lambda>c. c = lt \<or> c = gt) (trim s) = filter (\<lambda>c. c = lt \<or> c = gt) s"
proof -
  have "filter (\<lambda>c. c = lt \<or> c = gt) (trim s)
      = rev (filter (\<lambda>c. c = lt \<or> c = gt) (dropWhile isWhiteSpace (rev (dropWhile isWhiteSpace s))))"
    by (simp add: trim_def rev_filter)
  also have "\<dots> = rev (filter (\<lambda>c. c = lt \<or> c = gt) (rev (dropWhile isWhiteSpace s)))"
    by (simp only: filter_dropWhile_ws)
  also have "\<dots> = filter (\<lambda>c. c = lt \<or> c = gt) (dropWhile isWhiteSpace s)"
    by (simp add: rev_filter)
  finally show ?thesis by (simp only: filter_dropWhile_ws)
qed

lemma head_spec_collapse_ws:
  "spec_collapse_ws (c # cs) = x # xs \<Longrightarrow> \<not> isWhiteSpace c \<Longrightarrow> \<not> isWhiteSpace x"
  by auto

lemma no_run_spec_collapse_ws: "\<not> has_ws_run (spec_collapse_ws s)"
proof (induction s rule: spec_collapse_ws.induct)
  case 1
  then show ?case by simp
next
  case (2 c cs)
  show ?case
  proof (cases "isWhiteSpace c")
    case True
    let ?d = "dropWhile isWhiteSpace cs"
    from True 2 have ih: "\<not> has_ws_run (spec_collapse_ws ?d)" by simp
    show ?thesis
    proof (cases "spec_collapse_ws ?d")
      case Nil
      with True show ?thesis by simp
    next
      case (Cons x xs)
      then obtain d ds where d: "?d = d # ds" by (cases ?d) auto
      then have "\<not> isWhiteSpace d" by (metis hd_dropWhile list.sel(1) list.distinct(1))
      with Cons d have "\<not> isWhiteSpace x" using head_spec_collapse_ws by metis
      with True ih Cons show ?thesis by simp
    qed
  next
    case False
    with 2 have ih: "\<not> has_ws_run (spec_collapse_ws cs)" by simp
    from False ih show ?thesis by (cases "spec_collapse_ws cs") auto
  qed
qed

lemma has_ws_run_Cons: "has_ws_run m \<Longrightarrow> has_ws_run (a # m)"
  by (cases m) auto

lemma has_ws_run_prepend: "has_ws_run m \<Longrightarrow> has_ws_run (a @ m)"
  by (induction a) (auto intro: has_ws_run_Cons)

lemma has_ws_run_append: "has_ws_run m \<Longrightarrow> has_ws_run (m @ b)"
  by (induction m rule: has_ws_run.induct) auto

lemma has_ws_run_trim: "has_ws_run (trim s) \<Longrightarrow> has_ws_run s"
proof -
  assume a: "has_ws_run (trim s)"
  let ?d = "dropWhile isWhiteSpace s"
  have "?d = rev (dropWhile isWhiteSpace (rev ?d)) @ rev (takeWhile isWhiteSpace (rev ?d))"
    by (metis rev_append rev_rev_ident takeWhile_dropWhile_id)
  then have "?d = trim s @ rev (takeWhile isWhiteSpace (rev ?d))"
    by (simp add: trim_def)
  with a have "has_ws_run ?d" using has_ws_run_append by metis
  then have "has_ws_run (takeWhile isWhiteSpace s @ ?d)" by (rule has_ws_run_prepend)
  then show ?thesis by simp
qed

text \<open>
  Claim C1, as stated, fails: a \<open>>\<close> without a \<open><\<close> before it and a \<open><\<close> without a
  \<open>>\<close> after it are not tags and stay in the output.
\<close>

theorem normalize_keeps_stray_brackets:
  "gt \<in> set (normalize_inner (js ''a > b'')) \<and> lt \<in> set (normalize_inner (js ''a < b''))"
  by code_simp

text \<open>
  Claim C1, amended. For every markup fragment the normalizer's output contains no
  tag-delimited substring, that is no \<open><\<close> with a \<open>>\<close> anywhere after it, and no run of
  two or more whitespace characters.
\<close>

theorem normalize_no_tag_no_run:
  "\<not> has_tag (normalize_inner s) \<and> \<not> has_ws_run (normalize_inner s)"
proof
  have "has_tag (normalize_inner s) = has_tag (spec_replace_tags s)"
    unfolding normalize_inner_eq
    by (subst has_tag_filter) (simp add: filter_trim filter_spec_collapse_ws has_tag_filter [symmetric])
  then show "\<not> has_tag (normalize_inner s)" by (simp add: no_tag_spec_replace_tags)
  show "\<not> has_ws_run (normalize_inner s)"
    unfolding normalize_inner_eq using has_ws_run_trim no_run_spec_collapse_ws by blast
qed

theorem normalize_no_tag_no_run_witness:
  "normalize_inner (js ''  <b>Papel</b>   <i>a  b</i> x > y '') = js ''Papel a b x > y''
   \<and> \<not> has_tag (js ''Papel a b x > y'') \<and> \<not> has_ws_run (js ''Papel a b x > y'')"
proof -
  have e: "normalize_inner (js ''  <b>Papel</b>   <i>a  b</i> x > y '') = js ''Papel a b x > y''"
    by code_simp
  from normalize_no_tag_no_run [of "js ''  <b>Papel</b>   <i>a  b</i> x > y ''"] e
  show ?thesis by simp
qed

text \<open>
  Claim C2, as stated, fails: the source puts a space where a tag was, so \<open>a<b>c\<close> becomes
  \<open>a c\<close>, while deleting the tag gives \<open>ac\<close>.
\<close>

theorem normalize_replaces_tag_by_space:
  "normalize_inner (js ''a<b>c'') = js ''a c'' \<and> spec_normalize (js ''a<b>c'') = js ''ac''"
  by code_simp

lemma spec_replace_tags_id: "lt \<notin> set s \<Longrightarrow> spec_replace_tags s = s"
  by (induction s) auto

lemma spec_collapse_ws_id: "\<forall>c \<in> set s. \<not> isWhiteSpace c \<Longrightarrow> spec_collapse_ws s = s"
  by (induction s) auto

lemma trim_id: "\<forall>c \<in> set s. \<not> isWhiteSpace c \<Longrightarrow> trim s = s"
proof -
  assume a: "\<forall>c \<in> set s. \<not> isWhiteSpace c"
  then have "dropWhile isWhiteSpace s = s" by (cases s) auto
  moreover from a have "dropWhile isWhiteSpace (rev s) = rev s" by (cases "rev s") auto
  ultimately show ?thesis by (simp add: trim_def)
qed

text \<open>
  Claim C2, amended. The normalizer's output is the result of replacing every
  tag-delimited substring by one space, then collapsing every run of whitespace into one
  space, then trimming; nothing is decoded: a fragment without \<open><\<close> and without
  whitespace, such as one made of character entities, comes back unchanged.
\<close>

theorem normalize_is_replace_collapse_trim:
  "normalize_inner s = trim (spec_collapse_ws (spec_replace_tags s))
   \<and> ((\<forall>c \<in> set s. c \<noteq> lt \<and> \<not> isWhiteSpace c) \<longrightarrow> normalize_inner s = s)"
proof (intro conjI impI)
  show "normalize_inner s = trim (spec_collapse_ws (spec_replace_tags s))"
    by (rule normalize_inner_eq)
next
  assume a: "\<forall>c \<in> set s. c \<noteq> lt \<and> \<not> isWhiteSpace c"
  then have "spec_replace_tags s = s" by (intro spec_replace_tags_id) auto
  moreover from a have "spec_collapse_ws s = s" by (intro spec_collapse_ws_id) auto
  moreover from a have "trim s = s" by (intro trim_id) auto
  ultimately show "normalize_inner s = s" by (simp add: normalize_inner_eq)
qed

theorem normalize_is_replace_collapse_trim_witness:
  "normalize_inner (js ''a<b>c'') = trim (spec_collapse_ws (spec_replace_tags (js ''a<b>c'')))
   \<and> trim (spec_collapse_ws (spec_replace_tags (js ''a<b>c''))) = js ''a c''
   \<and> normalize_inner (js ''R&amp;D'') = js ''R&amp;D''"
proof -
  have h: "\<forall>c \<in> set (js ''R&amp;D''). c \<noteq> lt \<and> \<not> isWhiteSpace c"
    by (simp add: js_def lt_def isWhiteSpace_def)
  have e: "trim (spec_collapse_ws (spec_replace_tags (js ''a<b>c''))) = js ''a c''"
    by code_simp
  from normalize_is_replace_collapse_trim [of "js ''a<b>c''"]
  have 1: "normalize_inner (js ''a<b>c'') = trim (spec_collapse_ws (spec_replace_tags (js ''a<b>c'')))"
    by (rule conjunct1)
  from normalize_is_replace_collapse_trim [of "js ''R&amp;D''"] h
  have 2: "normalize_inner (js ''R&amp;D'') = js ''R&amp;D''"
    by blast
  show ?thesis by (intro conjI 1 e 2)
qed

section \<open>Properties of the parser loops\<close>

lemma match_all_nonempty:
  assumes "source r = Chr cc # k"
  shows "match_all r s i =
     (case exec r s i of (None, i') \<Rightarrow> [] | (Some m, i') \<Rightarrow> m # match_all r s i')"
proof (cases "exec r s i")
  case (Pair a i')
  show ?thesis
  proof (cases a)
    case None
    with Pair show ?thesis by (subst match_all.simps) simp
  next
    case (Some m)
    with Pair exec_advances(2) [OF _ assms] have "text0 m \<noteq> []" by blast
    with Pair Some show ?thesis by (subst match_all.simps) simp
  qed
qed

lemma cell_loop_eq:
  "cell_loop trHtml i cells = cells @ map cell_value (match_all cellRe trHtml i)"
proof (induction trHtml i cells rule: cell_loop.induct)
  case (1 trHtml i cells)
  from source_cellRe obtain k where k: "source cellRe = Chr (Lit lt) # k" by blast
  show ?case
  proof (cases "exec cellRe trHtml i")
    case (Pair a i')
    show ?thesis
    proof (cases a)
      case None
      with Pair show ?thesis
        by (subst cell_loop.simps, subst match_all_nonempty [OF k]) simp
    next
      case (Some m)
      from "1.IH" [OF Pair [symmetric] Some refl refl]
      have "cell_loop trHtml i' (cells @ [cell_value m]) =
          (cells @ [cell_value m]) @ map cell_value (match_all cellRe trHtml i')"
        by (simp add: cell_value_def)
      with Pair Some show ?thesis
        by (subst cell_loop.simps, subst match_all_nonempty [OF k])
           (simp add: cell_value_def Let_def)
    qed
  qed
qed

lemma tr_loop_eq:
  "tr_loop s i rows =
     rows @ filter (\<lambda>cells. cells \<noteq> []) (map (\<lambda>tr. cell_loop (text0 tr) 0 []) (match_all trRe s i))"
proof (induction s i rows rule: tr_loop.induct)
  case (1 s i rows)
  from source_trRe obtain k where k: "source trRe = Chr (Lit lt) # k" by blast
  show ?case
  proof (cases "exec trRe s i")
    case (Pair a i')
    show ?thesis
    proof (cases a)
      case None
      with Pair show ?thesis
        by (subst tr_loop.simps, subst match_all_nonempty [OF k]) simp
    next
      case (Some m)
      let ?cells = "cell_loop (text0 m) 0 []"
      let ?rows = "if 0 < length ?cells then rows @ [?cells] else rows"
      from "1.IH" [OF Pair [symmetric] Some refl refl]
      have "tr_loop s i' ?rows =
          ?rows @ filter (\<lambda>cells. cells \<noteq> []) (map (\<lambda>tr. cell_loop (text0 tr) 0 []) (match_all trRe s i'))"
        by simp
      with Pair Some show ?thesis
        by (subst tr_loop.simps, subst match_all_nonempty [OF k])
           (simp add: Let_def)
    qed
  qed
qed

lemma match_all_ordered:
  "in_document_order (match_all r s i) \<and> (\<forall>m \<in> set (match_all r s i). i \<le> index m)"
proof (induction r s i rule: match_all.induct)
  case (1 r s i)
  show ?case
  proof (cases "exec r s i")
    case (Pair a i')
    show ?thesis
    proof (cases a)
      case None
      with Pair show ?thesis by (subst (1 2) match_all.simps) (simp add: in_document_order_def)
    next
      case (Some m)
      let ?j = "if text0 m = [] then Suc i' else i'"
      from Pair Some have e: "exec r s i = (Some m, i')" by simp
      from exec_Some [OF e] have a: "i \<le> index m" and b: "i' = index m + length (text0 m)"
        by auto
      from "1.IH" [OF Pair [symmetric] Some]
      have ih: "in_document_order (match_all r s ?j)" "\<forall>m' \<in> set (match_all r s ?j). ?j \<le> index m'"
        by auto
      have ma: "match_all r s i = m # match_all r s ?j" using e by (subst match_all.simps) simp
      from b have "i' \<le> ?j" by simp
      with ih(2) b have "\<forall>m' \<in> set (match_all r s ?j). index m + length (text0 m) \<le> index m'"
        by (metis le_trans)
      with ih(1) have 1: "in_document_order (match_all r s i)"
        unfolding ma in_document_order_def by simp
      have "\<forall>m' \<in> set (match_all r s ?j). i \<le> index m'"
        using ih(2) a b by (metis (no_types, lifting) le_trans le_add1 \<open>i' \<le> ?j\<close>)
      with a have 2: "\<forall>m' \<in> set (match_all r s i). i \<le> index m'"
        unfolding ma by simp
      from 1 2 show ?thesis by blast
    qed
  qed
qed

lemma parse_eq:
  "parseTableHtmlToArray (Some s) =
     filter (\<lambda>cells. cells \<noteq> [])
       (map (\<lambda>tr. map cell_value (match_all cellRe (text0 tr) 0)) (match_all trRe s 0))"
proof (cases "s = []")
  case True
  have "exec trRe [] 0 = (None, 0)" by (simp add: exec_def trRe_def lits_def js_def)
  then have "match_all trRe [] 0 = []" by (subst match_all.simps) simp
  with True show ?thesis by (simp add: parseTableHtmlToArray_def)
next
  case False
  then show ?thesis
    using tr_loop_eq [of s 0 "[]"] cell_loop_eq [of _ 0 "[]"]
    by (simp add: parseTableHtmlToArray_def)
qed

lemma parse_rows_nonempty: "[] \<notin> set (parseTableHtmlToArray t)"
proof (cases t)
  case None
  then show ?thesis by (simp add: parseTableHtmlToArray_def)
next
  case (Some s)
  then show ?thesis by (simp add: parse_eq)
qed

text \<open>
  Claim C6. The inner loop appends one Cell, the normalized text of group 2, for every cell
  match found in the row segment, the empty string included; the outer loop appends a Row
  for a row segment exactly when the segment gave at least one Cell; so every Row of the
  output has at least one Cell, and \<open><tr><td></td></tr>\<close> gives one Row with the Cell \<open>""\<close>.
\<close>

theorem parser_appends_cells:
  "cell_loop trHtml i cells = cells @ map cell_value (match_all cellRe trHtml i)
   \<and> tr_loop s j rows =
       rows @ filter (\<lambda>cells. cells \<noteq> [])
                (map (\<lambda>tr. cell_loop (text0 tr) 0 []) (match_all trRe s j))
   \<and> [] \<notin> set (parseTableHtmlToArray t)
   \<and> parseTableHtmlToArray (Some (js ''<tr><td></td></tr>'')) = [[[]]]"
proof (intro conjI)
  show "cell_loop trHtml i cells = cells @ map cell_value (match_all cellRe trHtml i)"
    by (rule cell_loop_eq)
  show "tr_loop s j rows =
       rows @ filter (\<lambda>cells. cells \<noteq> [])
                (map (\<lambda>tr. cell_loop (text0 tr) 0 []) (match_all trRe s j))"
    by (rule tr_loop_eq)
  show "[] \<notin> set (parseTableHtmlToArray t)"
    by (rule parse_rows_nonempty)
  show "parseTableHtmlToArray (Some (js ''<tr><td></td></tr>'')) = [[[]]]"
    by code_simp
qed

theorem parser_appends_cells_witness:
  "cell_loop (js ''<tr><td></td><th> x </th></tr>'') 0 [] = [[], js ''x'']
   \<and> length (match_all cellRe (js ''<tr><td></td><th> x </th></tr>'') 0) = 2
   \<and> tr_loop (js ''<tr>no cell</tr><tr><td></td></tr>'') 0 [] = [[[]]]
   \<and> length (match_all trRe (js ''<tr>no cell</tr><tr><td></td></tr>'') 0) = 2"
proof -
  have a: "map cell_value (match_all cellRe (js ''<tr><td></td><th> x </th></tr>'') 0) = [[], js ''x'']"
    by code_simp
  have b: "length (match_all cellRe (js ''<tr><td></td><th> x </th></tr>'') 0) = 2"
    by code_simp
  have c: "filter (\<lambda>cells. cells \<noteq> [])
             (map (\<lambda>tr. cell_loop (text0 tr) 0 [])
                (match_all trRe (js ''<tr>no cell</tr><tr><td></td></tr>'') 0)) = [[[]]]"
    by code_simp
  have d: "length (match_all trRe (js ''<tr>no cell</tr><tr><td></td></tr>'') 0) = 2"
    by code_simp
  from parser_appends_cells [of "js ''<tr><td></td><th> x </th></tr>''" 0 "[]"
      "js ''<tr>no cell</tr><tr><td></td></tr>''" 0 "[]"] a b c d
  show ?thesis by simp
qed

text \<open>
  Claim C7. The example markup parses to \<open>[["A","B"],["C"]]\<close>. In general the row matches
  and the cell matches of a row lie one after the other in the document, and the output
  lists the rows, and in each row the cells, in the order of these matches.
\<close>

theorem parser_document_order:
  "parseTableHtmlToArray (Some (js ''<tr><td>A</td><td>B</td></tr><tr><td>C</td></tr>''))
     = [[js ''A'', js ''B''], [js ''C'']]
   \<and> in_document_order (match_all trRe s 0)
   \<and> in_document_order (match_all cellRe trHtml 0)
   \<and> parseTableHtmlToArray (Some s) =
       filter (\<lambda>cells. cells \<noteq> [])
         (map (\<lambda>tr. map cell_value (match_all cellRe (text0 tr) 0)) (match_all trRe s 0))"
proof (intro conjI)
  show "parseTableHtmlToArray (Some (js ''<tr><td>A</td><td>B</td></tr><tr><td>C</td></tr>''))
     = [[js ''A'', js ''B''], [js ''C'']]"
    by code_simp
  show "in_document_order (match_all trRe s 0)"
    using match_all_ordered by blast
  show "in_document_order (match_all cellRe trHtml 0)"
    using match_all_ordered by blast
  show "parseTableHtmlToArray (Some s) =
       filter (\<lambda>cells. cells \<noteq> [])
         (map (\<lambda>tr. map cell_value (match_all cellRe (text0 tr) 0)) (match_all trRe s 0))"
    by (rule parse_eq)
qed

theorem parser_document_order_witness:
  "map index (match_all trRe (js ''<tr><td>A</td><td>B</td></tr><tr><td>C</td></tr>'') 0) = [0, 29]
   \<and> map index (match_all cellRe (js ''<tr><td>A</td><td>B</td></tr>'') 0) = [4, 14]
   \<and> in_document_order (match_all trRe (js ''<tr><td>A</td><td>B</td></tr><tr><td>C</td></tr>'') 0)
   \<and> in_document_order (match_all cellRe (js ''<tr><td>A</td><td>B</td></tr>'') 0)"
proof -
  have a: "map index (match_all trRe (js ''<tr><td>A</td><td>B</td></tr><tr><td>C</td></tr>'') 0) = [0, 29]"
    by code_simp
  have b: "map index (match_all cellRe (js ''<tr><td>A</td><td>B</td></tr>'') 0) = [4, 14]"
    by code_simp
  from parser_document_order [of "js ''<tr><td>A</td><td>B</td></tr><tr><td>C</td></tr>''"
      "js ''<tr><td>A</td><td>B</td></tr>''"] a b
  show ?thesis by simp
qed

section \<open>Properties of the row and cell patterns\<close>

lemma ci_prefix_Nil [simp]: "ci_prefix [] v" "ci_prefix pat [] = (pat = [])"
  by (simp_all add: ci_prefix_def)

lemma ci_prefix_Cons [simp]:
  "ci_prefix (p # ps) (x # xs) = (canonicalize x = canonicalize p \<and> ci_prefix ps xs)"
  by (auto simp: ci_prefix_def)

lemma ci_prefix_length: "ci_prefix pat v \<Longrightarrow> length pat \<le> length v"
  by (simp add: ci_prefix_def)

lemma ci_prefix_append:
  "ci_prefix (a @ b) v = (ci_prefix a v \<and> ci_prefix b (drop (length a) v))"
proof (induction a arbitrary: v)
  case Nil
  then show ?case by simp
next
  case (Cons p a)
  then show ?case by (cases v) auto
qed

lemma ci_prefix_extend: "ci_prefix pat v \<Longrightarrow> ci_prefix pat (v @ w)"
proof (induction pat arbitrary: v)
  case Nil
  then show ?case by simp
next
  case (Cons p pat)
  then show ?case by (cases v) auto
qed

lemma mt_lits:
  "mt True (lits pat @ K) v st =
     (if ci_prefix pat v then mt True K (drop (length pat) v) st else None)"
proof (induction pat arbitrary: v)
  case Nil
  then show ?case by (simp add: lits_def)
next
  case (Cons p pat)
  then show ?case by (cases v) (auto simp: lits_def)
qed

lemma mt_lits_end:
  "mt True (lits pat) v st = (if ci_prefix pat v then Some (st, drop (length pat) v) else None)"
  using mt_lits [of pat "[]" v st] by simp

lemma mt_lazy_lits:
  "mt True (Star False AnyCU # lits pat) v st = map_option (Pair st) (after_ci pat v)"
proof (induction v)
  case Nil
  then show ?case by (cases pat) (auto simp: mt_lits_end)
next
  case (Cons x xs)
  then show ?case by (simp add: mt_lits_end)
qed

lemma source_trRe_eq:
  "source trRe = lits (js ''<tr'') @ Star False AnyCU # lits (js ''</tr>'')"
  by (simp add: trRe_def)

lemma mt_trRe:
  "mt True (source trRe) v st =
     (if ci_prefix (js ''<tr'') v
      then map_option (Pair st) (after_ci (js ''</tr>'') (drop 3 v))
      else None)"
proof -
  have l: "length (js ''<tr'') = 3" by (simp add: js_def)
  show ?thesis by (simp add: source_trRe_eq mt_lits mt_lazy_lits l)
qed

lemma source_cellRe_eq:
  "source cellRe = Chr (Lit lt) # Opn (Suc 0) # Alt (lits (js ''td'')) (lits (js ''th'')) # Cls (Suc 0) #
     Star True (NotLit gt) # Chr (Lit gt) # Opn 2 # Star False AnyCU # Cls 2 #
     lits (js ''</'') @ Backref (Suc 0) # lits [gt]"
  by (simp add: cellRe_def lits_def js_def lt_def gt_def)

lemma ci_prefix_gt: "ci_prefix [gt] v = (v \<noteq> [] \<and> hd v = gt)"
  by (cases v) auto

lemma mt_backref:
  assumes "caps st n = Some kd"
  shows "mt True (Backref n # K) w st =
     (if ci_prefix kd w then mt True K (drop (length kd) w) st else None)"
  using assms by (simp add: ci_prefix_def)

lemma mt_close:
  assumes "caps st (Suc 0) = Some kd"
  shows "mt True (Cls 2 # lits (js ''</'') @ Backref (Suc 0) # lits [gt]) w st =
     (if ci_prefix (js ''</'' @ kd @ [gt]) w
      then Some (st\<lparr>caps := (caps st)(2 \<mapsto> take (length (opens st 2) - length w) (opens st 2))\<rparr>,
                 drop (length kd + 3) w)
      else None)"
proof -
  let ?st = "st\<lparr>caps := (caps st)(2 \<mapsto> take (length (opens st 2) - length w) (opens st 2))\<rparr>"
  have l: "length (js ''</'') = 2" by (simp add: js_def)
  have c: "caps ?st (Suc 0) = Some kd" using assms by simp
  have d: "drop (length [gt]) (drop (length kd) (drop 2 w)) = drop (length kd + 3) w"
    by (simp add: eval_nat_numeral)
  have "mt True (Cls 2 # lits (js ''</'') @ Backref (Suc 0) # lits [gt]) w st =
      mt True (lits (js ''</'') @ Backref (Suc 0) # lits [gt]) w ?st"
    by simp
  also have "\<dots> =
      (if ci_prefix (js ''</'') w then mt True (Backref (Suc 0) # lits [gt]) (drop 2 w) ?st else None)"
    by (simp only: mt_lits l)
  also have "\<dots> =
      (if ci_prefix (js ''</'') w \<and> ci_prefix kd (drop 2 w)
       then mt True (lits [gt]) (drop (length kd) (drop 2 w)) ?st else None)"
    by (simp only: mt_backref [OF c]) simp
  also have "\<dots> =
      (if ci_prefix (js ''</'') w \<and> ci_prefix kd (drop 2 w) \<and>
          ci_prefix [gt] (drop (length kd) (drop 2 w))
       then Some (?st, drop (length kd + 3) w) else None)"
    by (simp only: mt_lits_end d) simp
  also have "\<dots> = (if ci_prefix (js ''</'' @ kd @ [gt]) w
       then Some (?st, drop (length kd + 3) w) else None)"
    by (simp only: ci_prefix_append l)
  finally show ?thesis .
qed

lemma after_ci_length:
  "after_ci pat w = Some rest \<Longrightarrow> length rest + length pat \<le> length w"
proof (induction w)
  case Nil
  then show ?case by (simp split: if_splits)
next
  case (Cons x xs)
  then show ?case
    by (auto split: if_splits dest!: ci_prefix_length)
qed

lemma mt_lazy_close:
  assumes "caps st (Suc 0) = Some kd"
  shows "mt True (Star False AnyCU # Cls 2 # lits (js ''</'') @ Backref (Suc 0) # lits [gt]) w st =
     (case after_ci (js ''</'' @ kd @ [gt]) w of
        None \<Rightarrow> None
      | Some rest \<Rightarrow>
          Some (st\<lparr>caps := (caps st)(2 \<mapsto>
                  take (length (opens st 2) - (length rest + length kd + 3)) (opens st 2))\<rparr>,
                rest))"
proof (induction w)
  case Nil
  have "js ''</'' @ kd @ [gt] \<noteq> []" by simp
  then show ?case by (simp add: mt_close [OF assms] del: mt.simps(11))
next
  case (Cons x xs)
  have l: "length (js ''</'' @ kd @ [gt]) = length kd + 3" by (simp add: js_def)
  show ?case
  proof (cases "ci_prefix (js ''</'' @ kd @ [gt]) (x # xs)")
    case True
    let ?rest = "drop (length kd + 3) (x # xs)"
    from ci_prefix_length [OF True] l
    have len: "length (x # xs) = length ?rest + length kd + 3"
      by simp
    have m: "mt True (Cls 2 # lits (js ''</'') @ Backref (Suc 0) # lits [gt]) (x # xs) st =
        Some (st\<lparr>caps := (caps st)(2 \<mapsto>
                  take (length (opens st 2) - length (x # xs)) (opens st 2))\<rparr>, ?rest)"
      using True by (simp only: mt_close [OF assms] if_True)
    have a: "after_ci (js ''</'' @ kd @ [gt]) (x # xs) = Some ?rest"
      using True by (simp only: after_ci.simps if_True l)
    have "mt True (Star False AnyCU # Cls 2 # lits (js ''</'') @ Backref (Suc 0) # lits [gt]) (x # xs) st =
        Some (st\<lparr>caps := (caps st)(2 \<mapsto>
                  take (length (opens st 2) - length (x # xs)) (opens st 2))\<rparr>, ?rest)"
      by (simp only: mt.simps(7) m option.case)
    then show ?thesis
      unfolding a option.case using len by (simp only:)
  next
    case False
    have m: "mt True (Cls 2 # lits (js ''</'') @ Backref (Suc 0) # lits [gt]) (x # xs) st = None"
      using False by (simp only: mt_close [OF assms] if_False)
    have a: "after_ci (js ''</'' @ kd @ [gt]) (x # xs) = after_ci (js ''</'' @ kd @ [gt]) xs"
      using False by (simp only: after_ci.simps if_False)
    have "mt True (Star False AnyCU # Cls 2 # lits (js ''</'') @ Backref (Suc 0) # lits [gt]) (x # xs) st =
        mt True (Star False AnyCU # Cls 2 # lits (js ''</'') @ Backref (Suc 0) # lits [gt]) xs st"
      by (simp only: mt.simps(7) m option.case cmatch.simps if_True)
    then show ?thesis unfolding a using Cons by (simp only:)
  qed
qed

lemma td_th_exclusive: "ci_prefix (js ''td'') v \<Longrightarrow> \<not> ci_prefix (js ''th'') v"
proof -
  have "canonicalize (0x64 :: cu) \<noteq> canonicalize 0x68" by (simp add: canonicalize_def)
  then show "ci_prefix (js ''td'') v \<Longrightarrow> \<not> ci_prefix (js ''th'') v"
    by (cases v; cases "tl v") (auto simp: js_def)
qed

lemma ci_prefix_take:
  "ci_prefix pat v \<Longrightarrow> map canonicalize (take (length pat) v) = map canonicalize pat"
  by (simp add: ci_prefix_def)

text \<open>The result of matching the cell pattern at the start of a string.\<close>

lemma mt_cellRe:
  "map_option (\<lambda>(st, rest). (caps st 2, rest)) (mt True (source cellRe) v st0) =
     (case v of
        [] \<Rightarrow> None
      | c # v1 \<Rightarrow>
          if c = lt \<and> (ci_prefix (js ''td'') v1 \<or> ci_prefix (js ''th'') v1) \<and> gt \<in> set (drop 2 v1)
          then (case after_ci (js ''</'' @ take 2 v1 @ [gt]) (after_gt (drop 2 v1)) of
                  None \<Rightarrow> None
                | Some rest \<Rightarrow>
                    Some (Some (take (length (after_gt (drop 2 v1)) - (length rest + 5))
                                  (after_gt (drop 2 v1))),
                          rest))
          else None)"
proof (cases v)
  case Nil
  then show ?thesis by (simp add: source_cellRe_eq)
next
  case (Cons c v1)
  let ?K3 = "Opn 2 # Star False AnyCU # Cls 2 # lits (js ''</'') @ Backref (Suc 0) # lits [gt]"
  let ?K1 = "Cls (Suc 0) # Star True (NotLit gt) # Chr (Lit gt) # ?K3"
  let ?st1 = "st0\<lparr>opens := (opens st0)(Suc 0 := v1)\<rparr>"
  let ?w = "drop 2 v1"
  have l2: "length (js ''td'') = 2" "length (js ''th'') = 2" by (simp_all add: js_def)
  have alt: "mt True (Alt (lits (js ''td'')) (lits (js ''th'')) # ?K1) v1 ?st1 =
      (if ci_prefix (js ''td'') v1 \<or> ci_prefix (js ''th'') v1 then mt True ?K1 ?w ?st1 else None)"
    using td_th_exclusive [of v1]
    by (auto simp: mt_lits l2 simp del: mt.simps(11) split: option.splits)
  have k1: "map_option (\<lambda>(st, rest). (caps st 2, rest)) (mt True ?K1 ?w ?st1) =
        (if gt \<in> set ?w
         then (case after_ci (js ''</'' @ take 2 v1 @ [gt]) (after_gt ?w) of
                  None \<Rightarrow> None
                | Some rest \<Rightarrow>
                    Some (Some (take (length (after_gt ?w) - (length rest + 5)) (after_gt ?w)), rest))
         else None)"
    if a: "ci_prefix (js ''td'') v1 \<or> ci_prefix (js ''th'') v1"
  proof -
    from a have len: "2 \<le> length v1" using ci_prefix_length l2 by metis
    let ?st2 = "?st1\<lparr>caps := (caps ?st1)(Suc 0 \<mapsto> take (length (opens ?st1 (Suc 0)) - length ?w) (opens ?st1 (Suc 0)))\<rparr>"
    have tk: "take (length (opens ?st1 (Suc 0)) - length ?w) (opens ?st1 (Suc 0)) = take 2 v1"
      using len by simp
    let ?st3 = "?st2\<lparr>opens := (opens ?st2)(2 := after_gt ?w)\<rparr>"
    have c3: "caps ?st3 (Suc 0) = Some (take 2 v1)" using tk by simp
    have lk: "length (take 2 v1) = 2" using len by simp
    have "mt True ?K1 ?w ?st1 = mt True (Star True (NotLit gt) # Chr (Lit gt) # ?K3) ?w ?st2"
      by simp
    also have "\<dots> = (if gt \<in> set ?w then mt True ?K3 (after_gt ?w) ?st2 else None)"
      by (rule mt_tag_tail)
    also have "mt True ?K3 (after_gt ?w) ?st2 =
        mt True (Star False AnyCU # Cls 2 # lits (js ''</'') @ Backref (Suc 0) # lits [gt])
          (after_gt ?w) ?st3"
      by simp
    also have "\<dots> =
        (case after_ci (js ''</'' @ take 2 v1 @ [gt]) (after_gt ?w) of
           None \<Rightarrow> None
         | Some rest \<Rightarrow>
             Some (?st3\<lparr>caps := (caps ?st3)(2 \<mapsto>
                     take (length (opens ?st3 2) - (length rest + length (take 2 v1) + 3)) (opens ?st3 2))\<rparr>,
                   rest))"
      by (rule mt_lazy_close [OF c3])
    finally have F: "mt True ?K1 ?w ?st1 =
       (if gt \<in> set ?w
        then case after_ci (js ''</'' @ take 2 v1 @ [gt]) (after_gt ?w) of
           None \<Rightarrow> None
         | Some rest \<Rightarrow>
             Some (?st3\<lparr>caps := (caps ?st3)(2 \<mapsto>
                     take (length (opens ?st3 2) - (length rest + length (take 2 v1) + 3)) (opens ?st3 2))\<rparr>,
                   rest)
        else None)" .
    show ?thesis
      unfolding F lk by (simp add: add.commute split: option.splits)
  qed
  have E: "mt True (source cellRe) (c # v1) st0 =
      (if c = lt then mt True (Alt (lits (js ''td'')) (lits (js ''th'')) # ?K1) v1 ?st1 else None)"
    by (simp add: source_cellRe_eq del: mt.simps(11) mt.simps(12))
  show ?thesis
  proof (cases "c = lt \<and> (ci_prefix (js ''td'') v1 \<or> ci_prefix (js ''th'') v1)")
    case True
    then have "mt True (source cellRe) (c # v1) st0 = mt True ?K1 ?w ?st1"
      unfolding E alt by simp
    then show ?thesis
      unfolding Cons using True k1 by (simp del: mt.simps)
  next
    case False
    then have "mt True (source cellRe) (c # v1) st0 = None"
      unfolding E alt by auto
    then show ?thesis
      unfolding Cons using False by auto
  qed
qed

subsection \<open>Matches need their closing tags\<close>

lemma after_ci_None: "(after_ci pat v = None) = (\<not> ci_includes pat v)"
  by (induction v) auto

lemma after_ci_Some:
  "after_ci pat w = Some rest \<Longrightarrow> \<exists>u m. w = u @ m @ rest \<and> ci_eq m pat"
proof (induction w)
  case Nil
  then show ?case by (auto simp: ci_eq_def split: if_splits)
next
  case (Cons x xs)
  show ?case
  proof (cases "ci_prefix pat (x # xs)")
    case True
    with Cons.prems have r: "rest = drop (length pat) (x # xs)" by simp
    from True have "ci_eq (take (length pat) (x # xs)) pat"
      by (simp add: ci_eq_def ci_prefix_def)
    moreover have "x # xs = [] @ take (length pat) (x # xs) @ rest"
      unfolding r by simp
    ultimately show ?thesis by blast
  next
    case False
    with Cons.prems have "after_ci pat xs = Some rest" by simp
    from Cons.IH [OF this] obtain u m where "xs = u @ m @ rest" "ci_eq m pat" by blast
    then have "x # xs = (x # u) @ m @ rest" by simp
    with \<open>ci_eq m pat\<close> show ?thesis by blast
  qed
qed

lemma ci_includes_Cons: "ci_includes pat v \<Longrightarrow> ci_includes pat (x # v)"
  by simp

lemma ci_includes_prepend: "ci_includes pat v \<Longrightarrow> ci_includes pat (u @ v)"
  by (induction u) auto

lemma ci_includes_append: "ci_includes pat v \<Longrightarrow> ci_includes pat (v @ w)"
proof (induction v)
  case Nil
  then show ?case by (cases w) auto
next
  case (Cons x v)
  then show ?case by (auto intro: ci_prefix_extend [of pat "x # v" w, simplified])
qed

lemma ci_includes_drop: "ci_includes pat (drop k v) \<Longrightarrow> ci_includes pat v"
  by (metis append_take_drop_id ci_includes_prepend)

lemma ci_includes_take: "ci_includes pat (take k v) \<Longrightarrow> ci_includes pat v"
  by (metis append_take_drop_id ci_includes_append)

lemma ci_prefix_cong: "ci_eq p p' \<Longrightarrow> ci_prefix p v = ci_prefix p' v"
  unfolding ci_eq_def ci_prefix_def by (metis length_map)

lemma ci_includes_cong: "ci_eq p p' \<Longrightarrow> ci_includes p v = ci_includes p' v"
proof (induction v)
  case Nil
  then show ?case by (auto simp: ci_eq_def)
next
  case (Cons x v)
  then show ?case using ci_prefix_cong [of p p' "x # v"] by simp
qed

lemma ci_includes_after_gt: "ci_includes pat (after_gt w) \<Longrightarrow> ci_includes pat w"
proof -
  assume a: "ci_includes pat (after_gt w)"
  have "\<exists>u. w = u @ after_gt w \<or> after_gt w = []"
  proof (cases "dropWhile (\<lambda>x. x \<noteq> gt) w")
    case Nil
    show ?thesis unfolding after_gt_def Nil by simp
  next
    case (Cons y ys)
    have "w = takeWhile (\<lambda>x. x \<noteq> gt) w @ dropWhile (\<lambda>x. x \<noteq> gt) w" by simp
    with Cons have "w = (takeWhile (\<lambda>x. x \<noteq> gt) w @ [y]) @ after_gt w"
      by (simp add: after_gt_def)
    then show ?thesis by blast
  qed
  then obtain u where "w = u @ after_gt w \<or> after_gt w = []" by blast
  then show ?thesis
  proof
    assume "w = u @ after_gt w"
    then show ?thesis using a ci_includes_prepend by metis
  next
    assume e: "after_gt w = []"
    with a have "pat = []" by simp
    then show ?thesis by (cases w) auto
  qed
qed

lemma exec_text:
  assumes "exec r s i = (Some m, i')"
  shows "\<exists>st. mt (ignoreCase r) (source r) (text0 m @ drop i' s) st0 = Some (st, drop i' s)
           \<and> groups m = caps st"
proof -
  from exec_Some [OF assms] obtain st where
    b: "i' = index m + length (text0 m)"
    and d: "text0 m = take (length (text0 m)) (drop (index m) s)"
    and e: "mt (ignoreCase r) (source r) (drop (index m) s) st0 = Some (st, drop i' s)"
    and g: "groups m = caps st"
    by blast
  have "drop (length (text0 m)) (drop (index m) s) = drop i' s"
    by (simp add: b add.commute)
  then have "drop (index m) s = text0 m @ drop i' s"
    by (metis d append_take_drop_id)
  then show ?thesis using e g by auto
qed

lemma exec_text_part:
  assumes "exec r s i = (Some m, i')"
  shows "\<exists>a. s = a @ text0 m @ drop i' s"
proof -
  from exec_Some [OF assms] have
    b: "i' = index m + length (text0 m)"
    and d: "text0 m = take (length (text0 m)) (drop (index m) s)"
    by blast+
  have "drop (length (text0 m)) (drop (index m) s) = drop i' s"
    by (simp add: b add.commute)
  then have "drop (index m) s = text0 m @ drop i' s"
    by (metis d append_take_drop_id)
  then have "s = take (index m) s @ text0 m @ drop i' s"
    by (metis append_take_drop_id)
  then show ?thesis by blast
qed

lemma match_all_member:
  "m \<in> set (match_all r s i) \<Longrightarrow> \<exists>j i'. exec r s j = (Some m, i')"
proof (induction r s i rule: match_all.induct)
  case (1 r s i)
  show ?case
  proof (cases "exec r s i")
    case (Pair a i')
    show ?thesis
    proof (cases a)
      case None
      with Pair "1.prems" show ?thesis by (subst (asm) match_all.simps) simp
    next
      case (Some m')
      from Pair Some "1.prems"
      have "m = m' \<or> m \<in> set (match_all r s (if text0 m' = [] then Suc i' else i'))"
        by (subst (asm) match_all.simps) simp
      then show ?thesis
      proof
        assume "m = m'"
        with Pair Some show ?thesis by blast
      next
        assume "m \<in> set (match_all r s (if text0 m' = [] then Suc i' else i'))"
        from "1.IH" [OF Pair [symmetric] Some this] show ?thesis .
      qed
    qed
  qed
qed

lemma tr_match_shape:
  assumes "mt True (source trRe) (t @ rest) st0 = Some (st, rest)"
  shows "\<exists>opening body closing. t = opening @ body @ closing
           \<and> ci_eq opening (js ''<tr'') \<and> ci_eq closing (js ''</tr>'')"
proof -
  let ?v = "t @ rest"
  from assms have p: "ci_prefix (js ''<tr'') ?v"
    and a: "after_ci (js ''</tr>'') (drop 3 ?v) = Some rest"
    by (auto simp: mt_trRe split: if_splits)
  from after_ci_Some [OF a] obtain u c where
    d: "drop 3 ?v = u @ c @ rest" and c: "ci_eq c (js ''</tr>'')" by blast
  have "?v = take 3 ?v @ drop 3 ?v" by (rule append_take_drop_id [symmetric])
  with d have "t @ rest = (take 3 ?v @ u @ c) @ rest" by (simp only: append_assoc)
  then have t: "t = take 3 ?v @ u @ c" by simp
  have l: "length (js ''<tr'') = 3" by (simp add: js_def)
  from p have "ci_eq (take (length (js ''<tr'')) ?v) (js ''<tr'')"
    by (simp only: ci_prefix_def ci_eq_def)
  then have "ci_eq (take 3 ?v) (js ''<tr'')" by (simp only: l)
  with t c show ?thesis by blast
qed

lemma split_gt: "gt \<in> set w \<Longrightarrow> w = takeWhile (\<lambda>x. x \<noteq> gt) w @ gt # after_gt w"
proof -
  assume "gt \<in> set w"
  then have "dropWhile (\<lambda>x. x \<noteq> gt) w \<noteq> []" by (simp add: dropWhile_eq_Nil_conv)
  then obtain y ys where d: "dropWhile (\<lambda>x. x \<noteq> gt) w = y # ys"
    by (cases "dropWhile (\<lambda>x. x \<noteq> gt) w") auto
  then have "y = gt" using hd_dropWhile [of "\<lambda>x. x \<noteq> gt" w] by force
  with d have "dropWhile (\<lambda>x. x \<noteq> gt) w = gt # after_gt w" by (simp add: after_gt_def)
  then show ?thesis by (metis takeWhile_dropWhile_id)
qed

lemma ci_eq_length: "ci_eq a b \<Longrightarrow> length a = length b"
  unfolding ci_eq_def by (metis length_map)

lemma canon_slash: "(canonicalize x = canonicalize 0x2F) = (x = 0x2F)"
  by (rule canon_nonletter) simp_all

lemma ci_eq_close:
  assumes "ci_eq m (js ''</'' @ kd @ [gt])"
  shows "\<exists>k'. m = js ''</'' @ k' @ [gt] \<and> ci_eq k' kd"
proof -
  from ci_eq_length [OF assms] have l: "length m = length kd + 3" by (simp add: js_def)
  then obtain m1 m2 ms where m: "m = m1 # m2 # ms" and lms: "length ms = length kd + 1"
    by (cases m; cases "tl m") auto
  from lms obtain k' z where ms: "ms = k' @ [z]" and lk: "length k' = length kd"
    by (cases ms rule: rev_cases) auto
  from assms m ms lk have "m1 = lt" "m2 = 0x2F" "z = gt" "ci_eq k' kd"
    using canon_slash [of m2] canon_lt [of m1] canon_gt [of z]
    by (auto simp: ci_eq_def js_def lt_def)
  with m ms show ?thesis by (auto simp: js_def lt_def)
qed

lemma cell_match_shape:
  assumes "mt True (source cellRe) (t @ rest) st0 = Some (st, rest)"
  shows "\<exists>k a inner k'. t = [lt] @ k @ a @ [gt] @ inner @ js ''</'' @ k' @ [gt]
           \<and> (ci_eq k (js ''td'') \<or> ci_eq k (js ''th'')) \<and> ci_eq k' k \<and> gt \<notin> set a
           \<and> caps st 2 = Some inner"
proof -
  from assms have "map_option (\<lambda>(st, rest). (caps st 2, rest)) (mt True (source cellRe) (t @ rest) st0)
      = Some (caps st 2, rest)"
    by simp
  then obtain c v1 where v: "t @ rest = c # v1" and c: "c = lt"
    and k: "ci_prefix (js ''td'') v1 \<or> ci_prefix (js ''th'') v1"
    and g: "gt \<in> set (drop 2 v1)"
    and a: "after_ci (js ''</'' @ take 2 v1 @ [gt]) (after_gt (drop 2 v1)) = Some rest"
    and i: "caps st 2 = Some (take (length (after_gt (drop 2 v1)) - (length rest + 5))
                                (after_gt (drop 2 v1)))"
    unfolding mt_cellRe by (auto split: list.splits if_splits option.splits)
  let ?w2 = "after_gt (drop 2 v1)"
  let ?kd = "take 2 v1"
  have l2: "length (js ''td'') = 2" "length (js ''th'') = 2" by (simp_all add: js_def)
  from k have len: "2 \<le> length v1" using ci_prefix_length l2 by metis
  from k have kk: "ci_eq ?kd (js ''td'') \<or> ci_eq ?kd (js ''th'')"
    unfolding ci_prefix_def ci_eq_def l2 by blast
  from after_ci_Some [OF a] obtain u m where
    w2: "?w2 = u @ m @ rest" and m: "ci_eq m (js ''</'' @ ?kd @ [gt])" by blast
  from ci_eq_length [OF m] len have lm: "length m = 5" by (simp add: js_def)
  from w2 lm have "take (length ?w2 - (length rest + 5)) ?w2 = u"
    by simp
  with i have inner: "caps st 2 = Some u" by simp
  from ci_eq_close [OF m] obtain k' where k': "m = js ''</'' @ k' @ [gt]" and ck: "ci_eq k' ?kd"
    by blast
  let ?a = "takeWhile (\<lambda>x. x \<noteq> gt) (drop 2 v1)"
  have na: "gt \<notin> set ?a" using set_takeWhileD by fastforce
  have "v1 = ?kd @ drop 2 v1" by (rule append_take_drop_id [symmetric])
  also have "drop 2 v1 = ?a @ gt # ?w2" by (rule split_gt [OF g])
  finally have "v1 = ?kd @ ?a @ gt # u @ m @ rest" using w2 by simp
  with v c k' have "t @ rest = ([lt] @ ?kd @ ?a @ [gt] @ u @ js ''</'' @ k' @ [gt]) @ rest"
    by simp
  then have "t = [lt] @ ?kd @ ?a @ [gt] @ u @ js ''</'' @ k' @ [gt]"
    by (simp only: append_same_eq)
  with kk ck na inner show ?thesis by blast
qed

lemma tr_match_needs_close:
  assumes "exec trRe s i = (Some m, i')"
  shows "ci_includes (js ''</tr>'') s"
proof -
  from exec_Some(5) [OF assms] obtain st where
    "mt True (source trRe) (drop (index m) s) st0 = Some (st, drop i' s)"
    by (auto simp: trRe_def)
  then have "after_ci (js ''</tr>'') (drop 3 (drop (index m) s)) \<noteq> None"
    by (auto simp: mt_trRe split: if_splits)
  then have "ci_includes (js ''</tr>'') (drop 3 (drop (index m) s))"
    by (simp add: after_ci_None)
  then show ?thesis using ci_includes_drop by blast
qed

lemma cell_match_needs_close:
  assumes "exec cellRe s i = (Some m, i')"
  shows "ci_includes (js ''</td>'') s \<or> ci_includes (js ''</th>'') s"
proof -
  from exec_Some(5) [OF assms] obtain st where
    e: "mt True (source cellRe) (drop (index m) s) st0 = Some (st, drop i' s)"
    by (auto simp: cellRe_def)
  let ?v = "drop (index m) s"
  from e have "map_option (\<lambda>(st, rest). (caps st 2, rest)) (mt True (source cellRe) ?v st0) \<noteq> None"
    by simp
  then obtain c v1 where v: "?v = c # v1"
    and k: "ci_prefix (js ''td'') v1 \<or> ci_prefix (js ''th'') v1"
    and a: "after_ci (js ''</'' @ take 2 v1 @ [gt]) (after_gt (drop 2 v1)) \<noteq> None"
    unfolding mt_cellRe by (auto split: list.splits if_splits option.splits)
  have l2: "length (js ''td'') = 2" "length (js ''th'') = 2" by (simp_all add: js_def)
  from k have kk: "ci_eq (take 2 v1) (js ''td'') \<or> ci_eq (take 2 v1) (js ''th'')"
    unfolding ci_prefix_def ci_eq_def l2 by blast
  from a have "ci_includes (js ''</'' @ take 2 v1 @ [gt]) (after_gt (drop 2 v1))"
    by (simp add: after_ci_None)
  then have "ci_includes (js ''</'' @ take 2 v1 @ [gt]) v1"
    using ci_includes_after_gt ci_includes_drop by blast
  then have "ci_includes (js ''</'' @ take 2 v1 @ [gt]) ?v"
    unfolding v by simp
  then have inc: "ci_includes (js ''</'' @ take 2 v1 @ [gt]) s"
    using ci_includes_drop by blast
  have td: "js ''</td>'' = js ''</'' @ js ''td'' @ [gt]" and th: "js ''</th>'' = js ''</'' @ js ''th'' @ [gt]"
    by (simp_all add: js_def gt_def)
  from kk show ?thesis
  proof
    assume "ci_eq (take 2 v1) (js ''td'')"
    then have "ci_eq (js ''</'' @ take 2 v1 @ [gt]) (js ''</td>'')"
      unfolding td by (simp add: ci_eq_def)
    from ci_includes_cong [OF this] inc show ?thesis by blast
  next
    assume "ci_eq (take 2 v1) (js ''th'')"
    then have "ci_eq (js ''</'' @ take 2 v1 @ [gt]) (js ''</th>'')"
      unfolding th by (simp add: ci_eq_def)
    from ci_includes_cong [OF this] inc show ?thesis by blast
  qed
qed

lemma match_all_none:
  "(\<And>j m i'. exec r s j \<noteq> (Some m, i')) \<Longrightarrow> match_all r s i = []"
  using match_all_member [of _ r s i] by (cases "match_all r s i") fastforce+

lemma parse_no_tr_close:
  assumes "\<not> ci_includes (js ''</tr>'') s"
  shows "parseTableHtmlToArray (Some s) = []"
proof -
  have "match_all trRe s 0 = []"
    using tr_match_needs_close assms by (intro match_all_none) blast
  then show ?thesis by (simp add: parse_eq)
qed

lemma parse_no_cell_close:
  assumes "\<not> ci_includes (js ''</td>'') s" and "\<not> ci_includes (js ''</th>'') s"
  shows "parseTableHtmlToArray (Some s) = []"
proof -
  have "match_all cellRe (text0 tr) 0 = []" if "tr \<in> set (match_all trRe s 0)" for tr
  proof -
    from match_all_member [OF that] obtain j i' where "exec trRe s j = (Some tr, i')" by blast
    from exec_text_part [OF this] obtain a where s: "s = a @ text0 tr @ drop i' s" by blast
    have part: "ci_includes pat (text0 tr) \<Longrightarrow> ci_includes pat s" for pat
      using s ci_includes_append ci_includes_prepend by metis
    with assms have "\<not> ci_includes (js ''</td>'') (text0 tr)" "\<not> ci_includes (js ''</th>'') (text0 tr)"
      by blast+
    then show ?thesis
      using cell_match_needs_close by (intro match_all_none) blast
  qed
  then have "map (\<lambda>tr. map cell_value (match_all cellRe (text0 tr) 0)) (match_all trRe s 0)
      = map (\<lambda>tr. []) (match_all trRe s 0)"
    by simp
  then show ?thesis by (simp add: parse_eq)
qed

section \<open>The parser on well-formed markup\<close>

subsection \<open>Occurrences across a boundary\<close>

lemma ci_prefix_includes: "ci_prefix pat v \<Longrightarrow> ci_includes pat v"
  by (cases v) auto

lemma ci_prefix_shorten:
  "ci_prefix pat (u @ w) \<Longrightarrow> length pat \<le> length u \<Longrightarrow> ci_prefix pat u"
  by (simp add: ci_prefix_def)

lemma ci_prefix_nth:
  "ci_prefix pat v \<Longrightarrow> n < length pat \<Longrightarrow> canonicalize (v ! n) = canonicalize (pat ! n)"
proof -
  assume a: "ci_prefix pat v" and n: "n < length pat"
  then have e: "map canonicalize (take (length pat) v) ! n = map canonicalize pat ! n"
    and l: "length pat \<le> length v"
    by (simp_all add: ci_prefix_def)
  from n l have "map canonicalize (take (length pat) v) ! n = canonicalize (v ! n)"
    by simp
  moreover from n have "map canonicalize pat ! n = canonicalize (pat ! n)" by simp
  ultimately show ?thesis using e by simp
qed

lemma no_straddle:
  assumes "u \<noteq> []" and "\<not> ci_prefix pat u"
    and "canonicalize c \<notin> canonicalize ` set (tl pat)"
  shows "\<not> ci_prefix pat (u @ c # w)"
proof
  assume p: "ci_prefix pat (u @ c # w)"
  show False
  proof (cases "length pat \<le> length u")
    case True
    with p assms(2) show False using ci_prefix_shorten by blast
  next
    case False
    then have n: "length u < length pat" by simp
    from ci_prefix_nth [OF p n] have "canonicalize c = canonicalize (pat ! length u)"
      by (simp add: nth_append)
    moreover from assms(1) n have "pat ! length u \<in> set (tl pat)"
      by (cases pat; cases u) auto
    ultimately show False using assms(3) by blast
  qed
qed

lemma no_occurrence_before:
  assumes "\<not> ci_includes pat g" and "k < length g"
    and "canonicalize c \<notin> canonicalize ` set (tl pat)"
  shows "\<not> ci_prefix pat (drop k g @ c # w)"
proof (rule no_straddle)
  show "drop k g \<noteq> []" using assms(2) by simp
  show "\<not> ci_prefix pat (drop k g)"
    using assms(1) ci_prefix_includes ci_includes_drop by blast
  show "canonicalize c \<notin> canonicalize ` set (tl pat)" by fact
qed

lemma after_ci_first:
  assumes "\<not> ci_includes pat u" and "pat \<noteq> []"
    and "canonicalize (hd pat) \<notin> canonicalize ` set (tl pat)"
  shows "after_ci pat (u @ pat @ w) = Some w"
  using assms(1)
proof (induction u)
  case Nil
  from assms(2) obtain p ps where p: "pat = p # ps" by (cases pat) auto
  have "ci_prefix pat (pat @ w)" by (simp add: ci_prefix_def)
  then show ?case unfolding p by simp
next
  case (Cons x u)
  from assms(2) obtain p ps where p: "pat = p # ps" by (cases pat) auto
  from Cons.prems have a: "\<not> ci_prefix pat (x # u)" and b: "\<not> ci_includes pat u" by auto
  have "\<not> ci_prefix pat ((x # u) @ hd pat # (tl pat @ w))"
    using a assms(3) by (intro no_straddle) auto
  then have "\<not> ci_prefix pat (x # u @ pat @ w)" using p by simp
  then show ?case using Cons.IH [OF b] by simp
qed

subsection \<open>All matches, on the rest of the input\<close>

lemma ignoreCase_trRe: "ignoreCase trRe = True"
  by (simp add: trRe_def)

lemma ignoreCase_cellRe: "ignoreCase cellRe = True"
  by (simp add: cellRe_def)

lemma drop_decomp:
  assumes "i \<le> length s" and "drop i s = b @ m @ rest"
  shows "i + length b + length m \<le> length s" and "drop (i + length b + length m) s = rest"
proof -
  have "length (drop i s) = length (b @ m @ rest)" by (simp only: assms(2))
  then have "length s - i = length b + length m + length rest" by simp
  with assms(1) show "i + length b + length m \<le> length s" by arith
  have "drop (i + length b + length m) s = drop (length b + length m) (drop i s)"
    by (simp add: add.commute add.left_commute)
  also have "\<dots> = rest" by (simp only: assms(2)) simp
  finally show "drop (i + length b + length m) s = rest" .
qed

lemma match_all_fm_None:
  "i \<le> length s \<Longrightarrow> fm (ignoreCase r) (source r) (drop i s) = None \<Longrightarrow> match_all r s i = []"
  using exec_fm_None [of i s r] by (subst match_all.simps) simp

lemma match_all_fm_Some:
  assumes "i \<le> length s" and "source r = Chr cc # k"
    and "fm (ignoreCase r) (source r) (drop i s) = Some (b, st, rest)"
  shows "\<exists>m. drop i s = b @ m @ rest
           \<and> mt (ignoreCase r) (source r) (m @ rest) st0 = Some (st, rest)
           \<and> match_all r s i =
               \<lparr>index = i + length b, text0 = m, groups = caps st\<rparr> #
               match_all r s (i + length b + length m)"
proof -
  from exec_fm_Some [OF assms(1,3)] obtain m where
    d: "drop i s = b @ m @ rest"
    and mm: "mt (ignoreCase r) (source r) (m @ rest) st0 = Some (st, rest)"
    and e: "exec r s i = (Some \<lparr>index = i + length b, text0 = m, groups = caps st\<rparr>,
                            i + length b + length m)"
    by blast
  from exec_advances(2) [OF e assms(2)] have "m \<noteq> []" by simp
  with e have "match_all r s i =
               \<lparr>index = i + length b, text0 = m, groups = caps st\<rparr> #
               match_all r s (i + length b + length m)"
    by (subst match_all.simps) simp
  with d mm show ?thesis by blast
qed

subsection \<open>The rows of rendered markup\<close>

lemma js_tr_open: "js ''<tr'' = lt # js ''tr''"
  by (simp add: js_def lt_def)

lemma js_tr_close: "js ''</tr>'' = lt # js ''/tr>''"
  by (simp add: js_def lt_def)

lemma lt_not_in_tr_open: "canonicalize lt \<notin> canonicalize ` set (tl (js ''<tr''))"
  by (simp add: js_def lt_def canonicalize_def)

lemma lt_not_in_tr_close: "canonicalize (hd (js ''</tr>'')) \<notin> canonicalize ` set (tl (js ''</tr>''))"
  by (simp add: js_def canonicalize_def)

lemma fm_trRe_tail:
  assumes "\<not> ci_includes (js ''<tr'') tail"
  shows "fm True (source trRe) tail = None"
proof (rule fm_none)
  fix k
  have "\<not> ci_prefix (js ''<tr'') (drop k tail)"
    using assms ci_prefix_includes ci_includes_drop by blast
  then show "mt True (source trRe) (drop k tail) st0 = None"
    by (simp add: mt_trRe)
qed

lemma mt_trRe_row:
  assumes "\<not> ci_includes (js ''</tr>'') (row_body r)"
  shows "mt True (source trRe) (render_row r @ nxt) st0 = Some (st0, nxt)"
proof -
  have l: "length (js ''<tr'') = 3" by (simp add: js_def)
  have p: "ci_prefix (js ''<tr'') (render_row r @ nxt)"
    by (simp add: render_row_def ci_prefix_def)
  have d: "drop 3 (render_row r @ nxt) = row_body r @ js ''</tr>'' @ nxt"
    using l by (simp add: render_row_def)
  have "after_ci (js ''</tr>'') (row_body r @ js ''</tr>'' @ nxt) = Some nxt"
    using assms lt_not_in_tr_close by (intro after_ci_first) (auto simp: js_def)
  with p d show ?thesis by (simp add: mt_trRe)
qed

lemma fm_trRe_row:
  assumes "\<not> ci_includes (js ''<tr'') g" and "\<not> ci_includes (js ''</tr>'') (row_body r)"
  shows "fm True (source trRe) (g @ render_row r @ nxt) = Some (g, st0, nxt)"
proof -
  have "mt True (source trRe) (drop k g @ render_row r @ nxt) st0 = None" if "k < length g" for k
  proof -
    have "\<not> ci_prefix (js ''<tr'') (drop k g @ lt # (js ''tr'' @ row_body r @ js ''</tr>'' @ nxt))"
      using assms(1) that lt_not_in_tr_open by (rule no_occurrence_before)
    then show ?thesis by (simp add: mt_trRe render_row_def js_tr_open)
  qed
  from fm_skip [of g True "source trRe" "render_row r @ nxt", OF this]
    fm_hit [OF mt_trRe_row [OF assms(2), of nxt]]
  show ?thesis by simp
qed

lemma rows_matches:
  assumes "\<not> ci_includes (js ''<tr'') tail"
  shows "list_all (\<lambda>(g, r). \<not> ci_includes (js ''<tr'') g \<and> wf_row r) rs \<Longrightarrow>
     i \<le> length s \<Longrightarrow> drop i s = render_rows rs @ tail \<Longrightarrow>
     map text0 (match_all trRe s i) = map (\<lambda>(g, r). render_row r) rs"
proof (induction rs arbitrary: i)
  case Nil
  then have "fm (ignoreCase trRe) (source trRe) (drop i s) = None"
    using fm_trRe_tail [OF assms] by (simp add: render_rows_def ignoreCase_trRe)
  from match_all_fm_None [OF Nil.prems(2) this] show ?case by simp
next
  case (Cons x rs)
  obtain g r where x: "x = (g, r)" by (cases x)
  let ?nx = "render_rows rs @ tail"
  from Cons.prems(1) x have g: "\<not> ci_includes (js ''<tr'') g" and w: "wf_row r"
    and rest: "list_all (\<lambda>(g, r). \<not> ci_includes (js ''<tr'') g \<and> wf_row r) rs"
    by auto
  from Cons.prems(3) x have d: "drop i s = g @ render_row r @ ?nx"
    by (simp add: render_rows_def)
  from w have b: "\<not> ci_includes (js ''</tr>'') (row_body r)" by (simp add: wf_row_def)
  have f: "fm (ignoreCase trRe) (source trRe) (drop i s) = Some (g, st0, ?nx)"
    unfolding d ignoreCase_trRe using fm_trRe_row [OF g b] by simp
  from source_trRe obtain k where k: "source trRe = Chr (Lit lt) # k" by blast
  from match_all_fm_Some [OF Cons.prems(2) k f] obtain m where
    dm: "drop i s = g @ m @ ?nx"
    and ma: "match_all trRe s i =
               \<lparr>index = i + length g, text0 = m, groups = caps st0\<rparr> #
               match_all trRe s (i + length g + length m)"
    by blast
  from d dm have m: "m = render_row r" by simp
  let ?i' = "i + length g + length m"
  from drop_decomp [OF Cons.prems(2) dm]
  have le: "?i' \<le> length s" and dr: "drop ?i' s = ?nx" .
  from Cons.IH [OF rest le dr] ma m x show ?case by simp
qed

subsection \<open>The cells of a rendered row\<close>

lemma js_td_open: "js ''<td'' = lt # js ''td''" "js ''<th'' = lt # js ''th''"
  by (simp_all add: js_def lt_def)

lemma mt_cellRe_dead:
  assumes "\<not> ci_prefix (js ''<td'') v" and "\<not> ci_prefix (js ''<th'') v"
  shows "mt True (source cellRe) v st0 = None"
proof -
  have "map_option (\<lambda>(st, rest). (caps st 2, rest)) (mt True (source cellRe) v st0) = None"
    unfolding mt_cellRe using assms by (auto simp: js_td_open split: list.splits)
  then show ?thesis by simp
qed

lemma mt_cellRe_no_lt:
  "v = [] \<or> hd v \<noteq> lt \<Longrightarrow> mt True (source cellRe) v st0 = None"
  by (rule mt_cellRe_dead) (cases v; auto simp: js_td_open)+

lemma lt_not_in_td_open:
  "canonicalize lt \<notin> canonicalize ` set (tl (js ''<td''))"
  "canonicalize lt \<notin> canonicalize ` set (tl (js ''<th''))"
  by (simp_all add: js_def lt_def canonicalize_def)

lemma dead_gap_no_cell_open:
  assumes "no_cell_open g"
  shows "dead_gap g"
  unfolding dead_gap_def
proof (intro allI impI)
  fix k w
  assume k: "k < length g"
  from assms have a: "\<not> ci_includes (js ''<td'') g" and b: "\<not> ci_includes (js ''<th'') g"
    by (simp_all add: no_cell_open_def)
  show "mt True (source cellRe) (drop k g @ lt # w) st0 = None"
    using no_occurrence_before [OF a k lt_not_in_td_open(1)]
      no_occurrence_before [OF b k lt_not_in_td_open(2)]
    by (intro mt_cellRe_dead) auto
qed

lemma dead_gap_Cons:
  assumes "\<And>w. mt True (source cellRe) (x # g @ lt # w) st0 = None" and "dead_gap g"
  shows "dead_gap (x # g)"
  unfolding dead_gap_def
proof (intro allI impI)
  fix k w
  assume k: "k < length (x # g)"
  show "mt True (source cellRe) (drop k (x # g) @ lt # w) st0 = None"
  proof (cases k)
    case 0
    then show ?thesis using assms(1) by simp
  next
    case (Suc j)
    with k have "j < length g" by simp
    with assms(2) Suc show ?thesis by (simp add: dead_gap_def)
  qed
qed

lemma dead_gap_prepend: "lt \<notin> set a \<Longrightarrow> dead_gap g \<Longrightarrow> dead_gap (a @ g)"
proof (induction a)
  case Nil
  then show ?case by simp
next
  case (Cons x a)
  then have d: "dead_gap (a @ g)" by simp
  from Cons.prems have "x \<noteq> lt" by auto
  then have "mt True (source cellRe) (x # (a @ g) @ lt # w) st0 = None" for w
    by (intro mt_cellRe_no_lt) simp
  from dead_gap_Cons [OF this d] show ?case by simp
qed

lemma dead_gap_header:
  assumes "lt \<notin> set a" and "dead_gap g"
  shows "dead_gap (js ''<tr'' @ a @ [gt] @ g)"
proof -
  have "lt \<notin> set (js ''tr'' @ a @ [gt])"
    using assms(1) by (simp add: js_def lt_def gt_def)
  from dead_gap_prepend [OF this assms(2)]
  have d: "dead_gap (js ''tr'' @ a @ [gt] @ g)" by simp
  have c: "canonicalize (0x72 :: cu) \<noteq> canonicalize 0x64" "canonicalize (0x72 :: cu) \<noteq> canonicalize 0x68"
    by (simp_all add: canonicalize_def)
  have "mt True (source cellRe) (lt # (js ''tr'' @ a @ [gt] @ g) @ lt # w) st0 = None" for w
    using c by (intro mt_cellRe_dead) (simp_all add: js_def)
  from dead_gap_Cons [OF this d] show ?thesis by (simp add: js_tr_open)
qed

lemma after_gt_append: "gt \<notin> set a \<Longrightarrow> after_gt (a @ gt # X) = X"
  by (simp add: after_gt_def dropWhile_append)

lemma close_tag_first:
  "canonicalize (hd (js ''</'' @ tag_name kd @ [gt]))
     \<notin> canonicalize ` set (tl (js ''</'' @ tag_name kd @ [gt]))"
  by (cases kd) (simp_all add: js_def gt_def canonicalize_def)

lemma mt_cellRe_hit:
  assumes "ci_prefix (js ''td'') v1 \<or> ci_prefix (js ''th'') v1" and "gt \<in> set (drop 2 v1)"
    and "after_ci (js ''</'' @ take 2 v1 @ [gt]) (after_gt (drop 2 v1)) = Some rest"
  shows "\<exists>st. mt True (source cellRe) (lt # v1) st0 = Some (st, rest)
           \<and> caps st 2 = Some (take (length (after_gt (drop 2 v1)) - (length rest + 5))
                                  (after_gt (drop 2 v1)))"
proof -
  have "map_option (\<lambda>(st, rest). (caps st 2, rest)) (mt True (source cellRe) (lt # v1) st0)
      = Some (Some (take (length (after_gt (drop 2 v1)) - (length rest + 5)) (after_gt (drop 2 v1))), rest)"
    unfolding mt_cellRe using assms by simp
  then show ?thesis by auto
qed

lemma mt_render_cell:
  assumes "wf_cell c"
  shows "\<exists>st. mt True (source cellRe) (render_cell c @ w) st0 = Some (st, w)
           \<and> caps st 2 = Some (cinner c)"
proof -
  define tag where "tag = tag_name (ckind c)"
  define pat where "pat = js ''</'' @ tag @ [gt]"
  define X where "X = cinner c @ pat @ w"
  define v1 where "v1 = tag @ cattrs c @ gt # X"
  have lt2: "length tag = 2" unfolding tag_def by (cases "ckind c") (simp_all add: js_def)
  have lp: "length pat = 5" using lt2 by (simp add: pat_def js_def)
  have v: "render_cell c @ w = lt # v1"
    by (simp add: render_cell_def v1_def X_def pat_def tag_def)
  have k: "ci_prefix (js ''td'') v1 \<or> ci_prefix (js ''th'') v1"
    unfolding v1_def tag_def by (cases "ckind c") (simp_all add: ci_prefix_def js_def)
  have tk: "take 2 v1 = tag" and dr: "drop 2 v1 = cattrs c @ gt # X"
    using lt2 by (simp_all add: v1_def)
  from assms have na: "gt \<notin> set (cattrs c)" and ni: "\<not> ci_includes pat (cinner c)"
    by (simp_all add: wf_cell_def wf_attrs_def pat_def tag_def)
  have g: "gt \<in> set (drop 2 v1)" unfolding dr by simp
  have ag: "after_gt (drop 2 v1) = X" unfolding dr using na by (rule after_gt_append)
  have "pat \<noteq> []" using lp by auto
  moreover have "canonicalize (hd pat) \<notin> canonicalize ` set (tl pat)"
    unfolding pat_def tag_def by (rule close_tag_first)
  ultimately have ac: "after_ci pat X = Some w"
    unfolding X_def using ni by (intro after_ci_first)
  then have ac': "after_ci (js ''</'' @ take 2 v1 @ [gt]) (after_gt (drop 2 v1)) = Some w"
    unfolding tk ag pat_def .
  have tx: "take (length X - (length w + 5)) X = cinner c"
    using lp by (simp add: X_def)
  from mt_cellRe_hit [OF k g ac'] obtain st where
    "mt True (source cellRe) (lt # v1) st0 = Some (st, w)"
    "caps st 2 = Some (take (length (after_gt (drop 2 v1)) - (length w + 5)) (after_gt (drop 2 v1)))"
    by blast
  then show ?thesis unfolding v ag tx by blast
qed

lemma fm_cell:
  assumes "dead_gap g" and "wf_cell c"
  shows "\<exists>st. fm True (source cellRe) (g @ render_cell c @ w) = Some (g, st, w)
           \<and> caps st 2 = Some (cinner c)"
proof -
  from mt_render_cell [OF assms(2), of w] obtain st where
    m: "mt True (source cellRe) (render_cell c @ w) st0 = Some (st, w)"
    and c: "caps st 2 = Some (cinner c)" by blast
  have v: "render_cell c @ w = lt # (tl (render_cell c) @ w)"
    by (simp add: render_cell_def)
  have "mt True (source cellRe) (drop k g @ render_cell c @ w) st0 = None" if "k < length g" for k
    unfolding v using assms(1) that by (simp add: dead_gap_def)
  from fm_skip [of g True "source cellRe" "render_cell c @ w", OF this] fm_hit [OF m]
  have "fm True (source cellRe) (g @ render_cell c @ w) = Some (g, st, w)" by simp
  with c show ?thesis by blast
qed

lemma fm_cells_end:
  assumes "dead_gap g"
  shows "fm True (source cellRe) (g @ js ''</tr>'') = None"
proof -
  have e: "fm True (source cellRe) (js ''</tr>'') = None" by code_simp
  have "mt True (source cellRe) (drop k g @ js ''</tr>'') st0 = None" if "k < length g" for k
    unfolding js_tr_close using assms that by (simp add: dead_gap_def)
  from fm_skip [of g True "source cellRe" "js ''</tr>''", OF this] e
  show ?thesis by simp
qed

lemma cells_matches:
  assumes "dead_gap tl'"
  shows "list_all (\<lambda>(g, c). dead_gap g \<and> wf_cell c) cs \<Longrightarrow>
     i \<le> length s \<Longrightarrow> drop i s = render_cells cs @ tl' @ js ''</tr>'' \<Longrightarrow>
     map cell_value (match_all cellRe s i) = map (\<lambda>(g, c). normalize_inner (cinner c)) cs"
proof (induction cs arbitrary: i)
  case Nil
  then have "fm (ignoreCase cellRe) (source cellRe) (drop i s) = None"
    using fm_cells_end [OF assms] by (simp add: render_cells_def ignoreCase_cellRe)
  from match_all_fm_None [OF Nil.prems(2) this] show ?case by simp
next
  case (Cons x cs)
  obtain g c where x: "x = (g, c)" by (cases x)
  let ?nx = "render_cells cs @ tl' @ js ''</tr>''"
  from Cons.prems(1) x have g: "dead_gap g" and w: "wf_cell c"
    and rest: "list_all (\<lambda>(g, c). dead_gap g \<and> wf_cell c) cs"
    by auto
  from Cons.prems(3) x have d: "drop i s = g @ render_cell c @ ?nx"
    by (simp add: render_cells_def)
  from fm_cell [OF g w, of ?nx] obtain st where
    f: "fm (ignoreCase cellRe) (source cellRe) (drop i s) = Some (g, st, ?nx)"
    and c2: "caps st 2 = Some (cinner c)"
    unfolding d ignoreCase_cellRe by blast
  from source_cellRe obtain k where k: "source cellRe = Chr (Lit lt) # k" by blast
  from match_all_fm_Some [OF Cons.prems(2) k f] obtain m where
    dm: "drop i s = g @ m @ ?nx"
    and ma: "match_all cellRe s i =
               \<lparr>index = i + length g, text0 = m, groups = caps st\<rparr> #
               match_all cellRe s (i + length g + length m)"
    by blast
  let ?i' = "i + length g + length m"
  from drop_decomp [OF Cons.prems(2) dm]
  have le: "?i' \<le> length s" and dr: "drop ?i' s = ?nx" .
  have "cell_value \<lparr>index = i + length g, text0 = m, groups = caps st\<rparr> = normalize_inner (cinner c)"
    using c2 by (simp add: cell_value_def)
  with Cons.IH [OF rest le dr] ma x show ?case by simp
qed

lemma row_cells:
  assumes "wf_row r"
  shows "map cell_value (match_all cellRe (render_row r) 0)
     = map (\<lambda>(g, c). normalize_inner (cinner c)) (rcells r)"
proof -
  from assms have a: "lt \<notin> set (rattrs r)"
    and cs: "list_all (\<lambda>(g, c). no_cell_open g \<and> wf_cell c) (rcells r)"
    and t: "no_cell_open (rtail r)"
    by (simp_all add: wf_row_def wf_attrs_def)
  from t have dt: "dead_gap (rtail r)" by (rule dead_gap_no_cell_open)
  show ?thesis
  proof (cases "rcells r")
    case Nil
    have d: "dead_gap (js ''<tr'' @ rattrs r @ [gt] @ rtail r)"
      using a dt by (rule dead_gap_header)
    have "drop 0 (render_row r) = render_cells [] @ (js ''<tr'' @ rattrs r @ [gt] @ rtail r) @ js ''</tr>''"
      using Nil by (simp add: render_row_def row_body_def render_cells_def)
    from cells_matches [OF d _ _ this] Nil show ?thesis by simp
  next
    case (Cons x cs')
    obtain g c where x: "x = (g, c)" by (cases x)
    from cs Cons x have g: "no_cell_open g" and w: "wf_cell c"
      and rest: "list_all (\<lambda>(g, c). no_cell_open g \<and> wf_cell c) cs'"
      by auto
    from rest have rest': "list_all (\<lambda>(g, c). dead_gap g \<and> wf_cell c) cs'"
      by (auto simp: list_all_iff intro: dead_gap_no_cell_open)
    have d: "dead_gap (js ''<tr'' @ rattrs r @ [gt] @ g)"
      using a dead_gap_no_cell_open [OF g] by (rule dead_gap_header)
    let ?cs = "(js ''<tr'' @ rattrs r @ [gt] @ g, c) # cs'"
    have all: "list_all (\<lambda>(g, c). dead_gap g \<and> wf_cell c) ?cs"
      using d w rest' by simp
    have "drop 0 (render_row r) = render_cells ?cs @ rtail r @ js ''</tr>''"
      using Cons x by (simp add: render_row_def row_body_def render_cells_def)
    from cells_matches [OF dt all _ this] Cons x show ?thesis by simp
  qed
qed

lemma parse_render:
  assumes "wf_table t"
  shows "parseTableHtmlToArray (Some (render_table t)) =
     filter (\<lambda>cells. cells \<noteq> [])
       (map (\<lambda>(g, r). map (\<lambda>(g, c). normalize_inner (cinner c)) (rcells r)) (trows t))"
proof -
  from assms have rs: "list_all (\<lambda>(g, r). \<not> ci_includes (js ''<tr'') g \<and> wf_row r) (trows t)"
    and tl: "\<not> ci_includes (js ''<tr'') (ttail t)"
    by (simp_all add: wf_table_def)
  have "drop 0 (render_table t) = render_rows (trows t) @ ttail t"
    by (simp add: render_table_def)
  from rows_matches [OF tl rs _ this]
  have m: "map text0 (match_all trRe (render_table t) 0) = map (\<lambda>(g, r). render_row r) (trows t)"
    by simp
  have "map (\<lambda>tr. map cell_value (match_all cellRe (text0 tr) 0)) (match_all trRe (render_table t) 0)
      = map (\<lambda>x. map cell_value (match_all cellRe x 0)) (map text0 (match_all trRe (render_table t) 0))"
    by (simp add: comp_def)
  also have "\<dots> = map (\<lambda>(g, r). map cell_value (match_all cellRe (render_row r) 0)) (trows t)"
    unfolding m by (simp add: comp_def case_prod_beta')
  also have "\<dots> = map (\<lambda>(g, r). map (\<lambda>(g, c). normalize_inner (cinner c)) (rcells r)) (trows t)"
    using rs by (intro map_cong refl) (auto simp: list_all_iff row_cells)
  finally show ?thesis by (simp add: parse_eq)
qed

text \<open>
  Claim C8. For well-formed single-table markup the number of Rows the parser returns is
  the number of rows of the markup that have at least one cell.
\<close>

theorem parser_row_count:
  "wf_table t \<Longrightarrow>
     length (parseTableHtmlToArray (Some (render_table t))) =
     length (filter (\<lambda>(g, r). rcells r \<noteq> []) (trows t))"
proof -
  assume "wf_table t"
  from parse_render [OF this]
  have "length (parseTableHtmlToArray (Some (render_table t))) =
      length (filter (\<lambda>cells. cells \<noteq> [])
       (map (\<lambda>(g, r). map (\<lambda>(g, c). normalize_inner (cinner c)) (rcells r)) (trows t)))"
    by simp
  also have "\<dots> = length (filter (\<lambda>(g, r). rcells r \<noteq> []) (trows t))"
    by (simp add: filter_map comp_def case_prod_beta')
  finally show ?thesis .
qed

theorem parser_row_count_witness:
  "wf_table (TableElt
       [(js ''<table><tbody>'',
         RowElt [] [([], CellElt TH [] (js ''Papel'')), ([], CellElt TH (js '' class=x'') (js ''Preco''))] []),
        (js '' '', RowElt (js '' id=r'') [] (js '' '')),
        ([], RowElt [] [(js '' '', CellElt TD [] (js ''ABCD11''))] [])]
       (js ''</tbody></table>''))
   \<and> render_table (TableElt
       [(js ''<table><tbody>'',
         RowElt [] [([], CellElt TH [] (js ''Papel'')), ([], CellElt TH (js '' class=x'') (js ''Preco''))] []),
        (js '' '', RowElt (js '' id=r'') [] (js '' '')),
        ([], RowElt [] [(js '' '', CellElt TD [] (js ''ABCD11''))] [])]
       (js ''</tbody></table>''))
     = js ''<table><tbody><tr><th>Papel</th><th class=x>Preco</th></tr> <tr id=r> </tr><tr> <td>ABCD11</td></tr></tbody></table>''
   \<and> length (parseTableHtmlToArray (Some (js
       ''<table><tbody><tr><th>Papel</th><th class=x>Preco</th></tr> <tr id=r> </tr><tr> <td>ABCD11</td></tr></tbody></table>'')))
     = 2"
proof -
  let ?t = "TableElt
       [(js ''<table><tbody>'',
         RowElt [] [([], CellElt TH [] (js ''Papel'')), ([], CellElt TH (js '' class=x'') (js ''Preco''))] []),
        (js '' '', RowElt (js '' id=r'') [] (js '' '')),
        ([], RowElt [] [(js '' '', CellElt TD [] (js ''ABCD11''))] [])]
       (js ''</tbody></table>'')"
  have h: "wf_table ?t" by code_simp
  have r: "render_table ?t
     = js ''<table><tbody><tr><th>Papel</th><th class=x>Preco</th></tr> <tr id=r> </tr><tr> <td>ABCD11</td></tr></tbody></table>''"
    by code_simp
  have n: "length (filter (\<lambda>(g, r). rcells r \<noteq> []) (trows ?t)) = 2" by simp
  from parser_row_count [OF h] have "length (parseTableHtmlToArray (Some (render_table ?t))) = 2"
    unfolding n .
  then have "length (parseTableHtmlToArray (Some (js
       ''<table><tbody><tr><th>Papel</th><th class=x>Preco</th></tr> <tr id=r> </tr><tr> <td>ABCD11</td></tr></tbody></table>'')))
     = 2"
    unfolding r .
  with h r show ?thesis by blast
qed

section \<open>Rows and cells come from explicitly closed segments\<close>

lemma count_ci_append: "count_ci pat u + count_ci pat v \<le> count_ci pat (u @ v)"
proof (induction u)
  case Nil
  then show ?case by simp
next
  case (Cons x u)
  have "ci_prefix pat (x # u) \<Longrightarrow> ci_prefix pat (x # u @ v)"
    using ci_prefix_extend [of pat "x # u" v] by simp
  with Cons show ?case by auto
qed

lemma count_ci_zero: "pat \<noteq> [] \<Longrightarrow> (count_ci pat s = 0) = (\<not> ci_includes pat s)"
  by (induction s) auto

lemma count_ci_ends:
  assumes "ci_eq c pat" and "pat \<noteq> []"
  shows "1 \<le> count_ci pat (u @ c)"
proof -
  from assms have "c \<noteq> []" using ci_eq_length by fastforce
  then obtain x xs where c: "c = x # xs" by (cases c) auto
  from assms(1) have "ci_prefix pat c"
    using ci_eq_length [OF assms(1)] by (simp add: ci_prefix_def ci_eq_def)
  then have "1 \<le> count_ci pat c" unfolding c by simp
  moreover have "count_ci pat c \<le> count_ci pat (u @ c)"
    using count_ci_append [of pat u c] by simp
  ultimately show ?thesis by simp
qed

lemma exec_decomp:
  assumes "exec r s i = (Some m, i')"
  shows "\<exists>b. drop i s = b @ text0 m @ drop i' s"
proof -
  from exec_Some [OF assms] have
    a: "i \<le> index m" and b: "i' = index m + length (text0 m)"
    and d: "text0 m = take (length (text0 m)) (drop (index m) s)"
    by blast+
  have "drop (length (text0 m)) (drop (index m) s) = drop i' s"
    by (simp add: b add.commute)
  then have e: "drop (index m) s = text0 m @ drop i' s"
    by (metis d append_take_drop_id)
  from a have "drop (index m - i) (drop i s) = drop (index m) s" by simp
  then have "drop i s = take (index m - i) (drop i s) @ drop (index m) s"
    by (metis append_take_drop_id)
  with e show ?thesis by auto
qed

lemma match_all_weight:
  fixes w :: "jsstring \<Rightarrow> nat"
  shows "(\<And>u v. w u + w v \<le> w (u @ v)) \<Longrightarrow> source r = Chr cc # k \<Longrightarrow>
     sum_list (map (\<lambda>m. w (text0 m)) (match_all r s i)) \<le> w (drop i s)"
proof (induction r s i rule: match_all.induct)
  case (1 r s i)
  note sup = "1.prems"(1) and src = "1.prems"(2)
  show ?case
  proof (cases "exec r s i")
    case (Pair a i')
    show ?thesis
    proof (cases a)
      case None
      with Pair have "match_all r s i = []" by (subst match_all.simps) simp
      then show ?thesis by simp
    next
      case (Some m)
      with Pair have e: "exec r s i = (Some m, i')" by simp
      from exec_advances(2) [OF e src] have ne: "text0 m \<noteq> []" .
      with e have ma: "match_all r s i = m # match_all r s i'"
        by (subst match_all.simps) simp
      from "1.IH" [OF Pair [symmetric] Some sup src] ne
      have ih: "sum_list (map (\<lambda>m. w (text0 m)) (match_all r s i')) \<le> w (drop i' s)"
        by simp
      from exec_decomp [OF e] obtain b where d: "drop i s = b @ text0 m @ drop i' s" by blast
      have "w (text0 m) + w (drop i' s) \<le> w (text0 m @ drop i' s)" by (rule sup)
      also have "\<dots> \<le> w b + w (text0 m @ drop i' s)" by simp
      also have "\<dots> \<le> w (drop i s)" unfolding d by (rule sup)
      finally show ?thesis using ih unfolding ma by simp
    qed
  qed
qed

lemma tr_match_count:
  assumes "exec trRe s j = (Some m, i')"
  shows "1 \<le> count_ci (js ''</tr>'') (text0 m)"
proof -
  from exec_text [OF assms] obtain st where
    "mt True (source trRe) (text0 m @ drop i' s) st0 = Some (st, drop i' s)"
    by (auto simp: ignoreCase_trRe)
  from tr_match_shape [OF this] obtain ob cl where
    t: "text0 m = ob @ cl" and c: "ci_eq cl (js ''</tr>'')"
    by (metis append_assoc)
  have "js ''</tr>'' \<noteq> []" by (simp add: js_def)
  from count_ci_ends [OF c this] show ?thesis unfolding t .
qed

lemma cell_match_count:
  assumes "exec cellRe s j = (Some m, i')"
  shows "1 \<le> count_ci (js ''</td>'') (text0 m) + count_ci (js ''</th>'') (text0 m)"
proof -
  from exec_text [OF assms] obtain st where
    "mt True (source cellRe) (text0 m @ drop i' s) st0 = Some (st, drop i' s)"
    by (auto simp: ignoreCase_cellRe)
  from cell_match_shape [OF this] obtain k a inner k' where
    t: "text0 m = ([lt] @ k @ a @ [gt] @ inner) @ (js ''</'' @ k' @ [gt])"
    and kk: "ci_eq k (js ''td'') \<or> ci_eq k (js ''th'')" and k': "ci_eq k' k"
    by auto
  have td: "js ''</td>'' = js ''</'' @ js ''td'' @ [gt]" and th: "js ''</th>'' = js ''</'' @ js ''th'' @ [gt]"
    by (simp_all add: js_def gt_def)
  have ne: "js ''</td>'' \<noteq> []" "js ''</th>'' \<noteq> []" by (simp_all add: js_def)
  from kk show ?thesis
  proof
    assume "ci_eq k (js ''td'')"
    with k' have "ci_eq (js ''</'' @ k' @ [gt]) (js ''</td>'')"
      unfolding td by (simp add: ci_eq_def)
    from count_ci_ends [OF this ne(1), of "[lt] @ k @ a @ [gt] @ inner"]
    have "1 \<le> count_ci (js ''</td>'') (text0 m)" by (simp only: t)
    then show ?thesis by arith
  next
    assume "ci_eq k (js ''th'')"
    with k' have "ci_eq (js ''</'' @ k' @ [gt]) (js ''</th>'')"
      unfolding th by (simp add: ci_eq_def)
    from count_ci_ends [OF this ne(2), of "[lt] @ k @ a @ [gt] @ inner"]
    have "1 \<le> count_ci (js ''</th>'') (text0 m)" by (simp only: t)
    then show ?thesis by arith
  qed
qed

lemma length_le_sum_list:
  fixes f :: "'a \<Rightarrow> nat"
  shows "\<forall>x \<in> set xs. 1 \<le> f x \<Longrightarrow> length xs \<le> sum_list (map f xs)"
  by (induction xs) auto

lemma sum_list_filter_le:
  fixes f :: "'a \<Rightarrow> nat"
  shows "sum_list (map f (filter P xs)) \<le> sum_list (map f xs)"
  by (induction xs) auto

lemma match_all_length_weight:
  fixes w :: "jsstring \<Rightarrow> nat"
  assumes "\<And>u v. w u + w v \<le> w (u @ v)" and "source r = Chr cc # k"
    and "\<And>j m i'. exec r s j = (Some m, i') \<Longrightarrow> 1 \<le> w (text0 m)"
  shows "length (match_all r s 0) \<le> w s"
proof -
  have "\<forall>m \<in> set (match_all r s 0). 1 \<le> w (text0 m)"
    using match_all_member assms(3) by blast
  then have "length (match_all r s 0) \<le> sum_list (map (\<lambda>m. w (text0 m)) (match_all r s 0))"
    by (rule length_le_sum_list)
  also have "\<dots> \<le> w (drop 0 s)" using assms(1,2) by (rule match_all_weight)
  finally show ?thesis by simp
qed

lemma close_count_sup:
  "(count_ci (js ''</td>'') u + count_ci (js ''</th>'') u) +
   (count_ci (js ''</td>'') v + count_ci (js ''</th>'') v)
     \<le> count_ci (js ''</td>'') (u @ v) + count_ci (js ''</th>'') (u @ v)"
  using count_ci_append [of "js ''</td>''" u v] count_ci_append [of "js ''</th>''" u v]
  by arith

lemma parse_row_bound:
  "length (parseTableHtmlToArray (Some s)) \<le> count_ci (js ''</tr>'') s"
proof -
  from source_trRe obtain k where k: "source trRe = Chr (Lit lt) # k" by blast
  have "length (parseTableHtmlToArray (Some s)) \<le> length (match_all trRe s 0)"
    unfolding parse_eq by (metis length_filter_le length_map)
  also have "\<dots> \<le> count_ci (js ''</tr>'') s"
    using count_ci_append k tr_match_count by (rule match_all_length_weight)
  finally show ?thesis .
qed

lemma parse_cell_bound:
  "sum_list (map length (parseTableHtmlToArray (Some s)))
     \<le> count_ci (js ''</td>'') s + count_ci (js ''</th>'') s"
proof -
  let ?w = "\<lambda>t. count_ci (js ''</td>'') t + count_ci (js ''</th>'') t"
  from source_trRe obtain k where k: "source trRe = Chr (Lit lt) # k" by blast
  from source_cellRe obtain k' where k': "source cellRe = Chr (Lit lt) # k'" by blast
  have row: "length (map cell_value (match_all cellRe t 0)) \<le> ?w t" for t
    using match_all_length_weight [of ?w cellRe _ k' t, OF close_count_sup k' cell_match_count]
    by simp
  have "sum_list (map length (parseTableHtmlToArray (Some s)))
      \<le> sum_list (map length (map (\<lambda>tr. map cell_value (match_all cellRe (text0 tr) 0)) (match_all trRe s 0)))"
    unfolding parse_eq by (rule sum_list_filter_le)
  also have "\<dots> \<le> sum_list (map (\<lambda>tr. ?w (text0 tr)) (match_all trRe s 0))"
    unfolding map_map comp_def using row by (intro sum_list_mono) simp
  also have "\<dots> \<le> ?w (drop 0 s)"
    using close_count_sup k by (rule match_all_weight)
  finally show ?thesis by simp
qed

lemma parse_row_origin:
  assumes "row \<in> set (parseTableHtmlToArray (Some s))"
  shows "\<exists>a opening body closing b. s = a @ (opening @ body @ closing) @ b
      \<and> ci_eq opening (js ''<tr'') \<and> ci_eq closing (js ''</tr>'')
      \<and> (\<forall>v \<in> set row. \<exists>a' k attrs inner k' b'.
            opening @ body @ closing =
              a' @ ([lt] @ k @ attrs @ [gt] @ inner @ js ''</'' @ k' @ [gt]) @ b'
            \<and> (ci_eq k (js ''td'') \<or> ci_eq k (js ''th'')) \<and> ci_eq k' k \<and> gt \<notin> set attrs
            \<and> v = normalize_inner inner)"
proof -
  from assms obtain tr where tr: "tr \<in> set (match_all trRe s 0)"
    and row: "row = map cell_value (match_all cellRe (text0 tr) 0)"
    unfolding parse_eq by auto
  from match_all_member [OF tr] obtain j i' where e: "exec trRe s j = (Some tr, i')" by blast
  from exec_text [OF e] obtain st where
    "mt True (source trRe) (text0 tr @ drop i' s) st0 = Some (st, drop i' s)"
    by (auto simp: ignoreCase_trRe)
  from tr_match_shape [OF this] obtain ob bd cl where
    t: "text0 tr = ob @ bd @ cl" and o: "ci_eq ob (js ''<tr'')" and c: "ci_eq cl (js ''</tr>'')"
    by blast
  have cells: "\<exists>a' k attrs inner k' b'.
            ob @ bd @ cl = a' @ ([lt] @ k @ attrs @ [gt] @ inner @ js ''</'' @ k' @ [gt]) @ b'
            \<and> (ci_eq k (js ''td'') \<or> ci_eq k (js ''th'')) \<and> ci_eq k' k \<and> gt \<notin> set attrs
            \<and> v = normalize_inner inner" if "v \<in> set row" for v
  proof -
    from that row obtain m where m: "m \<in> set (match_all cellRe (text0 tr) 0)"
      and v: "v = cell_value m" by auto
    from match_all_member [OF m] obtain j2 i2 where
      e2: "exec cellRe (text0 tr) j2 = (Some m, i2)" by blast
    from exec_text_part [OF e2] obtain a' b' where
      p: "text0 tr = a' @ text0 m @ b'" by blast
    from exec_text [OF e2] obtain st2 where
      m2: "mt True (source cellRe) (text0 m @ drop i2 (text0 tr)) st0 = Some (st2, drop i2 (text0 tr))"
      and g: "groups m = caps st2"
      by (auto simp: ignoreCase_cellRe)
    from cell_match_shape [OF m2] obtain k attrs inner k' where
      sh: "text0 m = [lt] @ k @ attrs @ [gt] @ inner @ js ''</'' @ k' @ [gt]"
      and kk: "ci_eq k (js ''td'') \<or> ci_eq k (js ''th'')" and k': "ci_eq k' k"
      and na: "gt \<notin> set attrs" and c2: "caps st2 2 = Some inner"
      by blast
    from g c2 v have "v = normalize_inner inner" by (simp add: cell_value_def)
    moreover have "ob @ bd @ cl = a' @ ([lt] @ k @ attrs @ [gt] @ inner @ js ''</'' @ k' @ [gt]) @ b'"
      using p unfolding t sh .
    ultimately show ?thesis using kk k' na by blast
  qed
  from exec_text_part [OF e] obtain a b where "s = a @ text0 tr @ b" by blast
  then have sq: "s = a @ (ob @ bd @ cl) @ b" unfolding t .
  have all: "\<forall>v \<in> set row. \<exists>a' k attrs inner k' b'.
            ob @ bd @ cl = a' @ ([lt] @ k @ attrs @ [gt] @ inner @ js ''</'' @ k' @ [gt]) @ b'
            \<and> (ci_eq k (js ''td'') \<or> ci_eq k (js ''th'')) \<and> ci_eq k' k \<and> gt \<notin> set attrs
            \<and> v = normalize_inner inner"
    using cells by (rule ballI)
  show ?thesis
    by (rule exI [where x = a], rule exI [where x = ob], rule exI [where x = bd],
        rule exI [where x = cl], rule exI [where x = b])
       (intro conjI sq o c all)
qed

text \<open>
  Claim C10, as stated, fails: an opening tag without its explicit closing tag does
  contribute to the output. In \<open><tr><th>A<td>B</th></tr>\<close> the \<open><td>\<close> is never closed, yet
  its text \<open>B\<close> is part of the one Cell returned, which is \<open>A\<close> alone without it.
\<close>

theorem unclosed_tag_text_is_kept:
  "parseTableHtmlToArray (Some (js ''<tr><th>A<td>B</th></tr>'')) = [[js ''A B'']]
   \<and> parseTableHtmlToArray (Some (js ''<tr><th>A</th></tr>'')) = [[js ''A'']]"
  by code_simp

text \<open>
  Claim C10, amended. For every input every Row of the parser's output comes from a part of
  the input that begins with \<open><tr\<close> and ends with an explicit \<open></tr>\<close>, and every Cell of
  that Row is the normalized inner text of a part of that row segment made of an opening
  \<open><td\<close> or \<open><th\<close> tag, the inner text and an explicit closing tag of the same kind. An
  opening tag without such a closing tag gives no Cell or Row of its own: the parser returns
  at most as many Rows as the input has occurrences of \<open></tr>\<close>, and at most as many
  Cells as it has occurrences of \<open></td>\<close> and \<open></th>\<close>, and nothing when the input has no
  \<open></tr>\<close>, or neither \<open></td>\<close> nor \<open></th>\<close>. So markup relying on implied end tags gives
  fewer, possibly zero, Cells and Rows.
\<close>

theorem parser_only_closed_segments:
  "(\<forall>row \<in> set (parseTableHtmlToArray (Some s)).
      \<exists>a opening body closing b. s = a @ (opening @ body @ closing) @ b
        \<and> ci_eq opening (js ''<tr'') \<and> ci_eq closing (js ''</tr>'')
        \<and> (\<forall>v \<in> set row. \<exists>a' k attrs inner k' b'.
              opening @ body @ closing =
                a' @ ([lt] @ k @ attrs @ [gt] @ inner @ js ''</'' @ k' @ [gt]) @ b'
              \<and> (ci_eq k (js ''td'') \<or> ci_eq k (js ''th'')) \<and> ci_eq k' k \<and> gt \<notin> set attrs
              \<and> v = normalize_inner inner))
   \<and> length (parseTableHtmlToArray (Some s)) \<le> count_ci (js ''</tr>'') s
   \<and> sum_list (map length (parseTableHtmlToArray (Some s)))
        \<le> count_ci (js ''</td>'') s + count_ci (js ''</th>'') s
   \<and> (\<not> ci_includes (js ''</tr>'') s \<longrightarrow> parseTableHtmlToArray (Some s) = [])
   \<and> (\<not> ci_includes (js ''</td>'') s \<and> \<not> ci_includes (js ''</th>'') s \<longrightarrow>
        parseTableHtmlToArray (Some s) = [])
   \<and> parseTableHtmlToArray (Some (js ''<table><tr><td>A<td>B<tr><td>C</table>'')) = []"
proof (intro conjI ballI impI)
  fix row
  assume "row \<in> set (parseTableHtmlToArray (Some s))"
  then show "\<exists>a opening body closing b. s = a @ (opening @ body @ closing) @ b
        \<and> ci_eq opening (js ''<tr'') \<and> ci_eq closing (js ''</tr>'')
        \<and> (\<forall>v \<in> set row. \<exists>a' k attrs inner k' b'.
              opening @ body @ closing =
                a' @ ([lt] @ k @ attrs @ [gt] @ inner @ js ''</'' @ k' @ [gt]) @ b'
              \<and> (ci_eq k (js ''td'') \<or> ci_eq k (js ''th'')) \<and> ci_eq k' k \<and> gt \<notin> set attrs
              \<and> v = normalize_inner inner)"
    by (rule parse_row_origin)
next
  show "length (parseTableHtmlToArray (Some s)) \<le> count_ci (js ''</tr>'') s"
    by (rule parse_row_bound)
next
  show "sum_list (map length (parseTableHtmlToArray (Some s)))
        \<le> count_ci (js ''</td>'') s + count_ci (js ''</th>'') s"
    by (rule parse_cell_bound)
next
  assume "\<not> ci_includes (js ''</tr>'') s"
  then show "parseTableHtmlToArray (Some s) = []" by (rule parse_no_tr_close)
next
  assume "\<not> ci_includes (js ''</td>'') s \<and> \<not> ci_includes (js ''</th>'') s"
  then show "parseTableHtmlToArray (Some s) = []" using parse_no_cell_close by blast
next
  show "parseTableHtmlToArray (Some (js ''<table><tr><td>A<td>B<tr><td>C</table>'')) = []"
    by code_simp
qed

theorem parser_only_closed_segments_witness:
  "parseTableHtmlToArray (Some (js ''<table><tr><td>A<td>B</td></tr><tr><td>C</table>''))
     = [[js ''A B'']]
   \<and> count_ci (js ''</tr>'') (js ''<table><tr><td>A<td>B</td></tr><tr><td>C</table>'') = 1
   \<and> count_ci (js ''</td>'') (js ''<table><tr><td>A<td>B</td></tr><tr><td>C</table>'')
       + count_ci (js ''</th>'') (js ''<table><tr><td>A<td>B</td></tr><tr><td>C</table>'') = 1
   \<and> length (parseTableHtmlToArray (Some (js ''<table><tr><td>A<td>B</td></tr><tr><td>C</table>'')))
       \<le> 1
   \<and> sum_list (map length
         (parseTableHtmlToArray (Some (js ''<table><tr><td>A<td>B</td></tr><tr><td>C</table>''))))
       \<le> 1
   \<and> \<not> ci_includes (js ''</tr>'') (js ''<table><tr><td>A</td><tr><td>B</td></table>'')
   \<and> parseTableHtmlToArray (Some (js ''<table><tr><td>A</td><tr><td>B</td></table>'')) = []
   \<and> \<not> ci_includes (js ''</td>'') (js ''<table><tr><td>A<td>B</tr></table>'')
   \<and> \<not> ci_includes (js ''</th>'') (js ''<table><tr><td>A<td>B</tr></table>'')
   \<and> parseTableHtmlToArray (Some (js ''<table><tr><td>A<td>B</tr></table>'')) = []"
proof -
  let ?x = "js ''<table><tr><td>A<td>B</td></tr><tr><td>C</table>''"
  have p: "parseTableHtmlToArray (Some ?x) = [[js ''A B'']]" by code_simp
  have c1: "count_ci (js ''</tr>'') ?x = 1" by code_simp
  have c2: "count_ci (js ''</td>'') ?x + count_ci (js ''</th>'') ?x = 1" by code_simp
  from parser_only_closed_segments [of ?x]
  have "length (parseTableHtmlToArray (Some ?x)) \<le> count_ci (js ''</tr>'') ?x"
    and "sum_list (map length (parseTableHtmlToArray (Some ?x)))
        \<le> count_ci (js ''</td>'') ?x + count_ci (js ''</th>'') ?x"
    by blast+
  then have b1: "length (parseTableHtmlToArray (Some ?x)) \<le> 1"
    and b2: "sum_list (map length (parseTableHtmlToArray (Some ?x))) \<le> 1"
    unfolding c1 c2 .
  have a: "\<not> ci_includes (js ''</tr>'') (js ''<table><tr><td>A</td><tr><td>B</td></table>'')"
    by code_simp
  have b: "\<not> ci_includes (js ''</td>'') (js ''<table><tr><td>A<td>B</tr></table>'')
     \<and> \<not> ci_includes (js ''</th>'') (js ''<table><tr><td>A<td>B</tr></table>'')"
    by code_simp
  from parser_only_closed_segments [of "js ''<table><tr><td>A</td><tr><td>B</td></table>''"] a
  have 1: "parseTableHtmlToArray (Some (js ''<table><tr><td>A</td><tr><td>B</td></table>'')) = []"
    by blast
  from parser_only_closed_segments [of "js ''<table><tr><td>A<td>B</tr></table>''"] b
  have 2: "parseTableHtmlToArray (Some (js ''<table><tr><td>A<td>B</tr></table>'')) = []"
    by blast
  from p c1 c2 b1 b2 a b 1 2 show ?thesis by blast
qed

end
